theory Spec2Isabelle
  imports Main "HOL-Library.AList"
begin

section \<open>Python strings and integers, as radio.py uses them\<close>

text \<open>
  A Python \<open>str\<close> is modelled as a \<open>string\<close> of ASCII characters. The case
  mapping and the whitespace class below are those of Python restricted to ASCII; a
  character outside ASCII is left alone by \<open>lower\<close> and is neither whitespace nor a
  digit.
\<close>

definition upper_letters :: string where
  "upper_letters = ''ABCDEFGHIJKLMNOPQRSTUVWXYZ''"

definition lower_letters :: string where
  "lower_letters = ''abcdefghijklmnopqrstuvwxyz''"

definition lower_char :: "char \<Rightarrow> char" where
  "lower_char c = (case map_of (zip upper_letters lower_letters) c of
                     Some d \<Rightarrow> d | None \<Rightarrow> c)"

definition upper_char :: "char \<Rightarrow> char" where
  "upper_char c = (case map_of (zip lower_letters upper_letters) c of
                     Some d \<Rightarrow> d | None \<Rightarrow> c)"

definition upper :: "string \<Rightarrow> string" where
  \<comment> \<open>\<open>str.upper()\<close>\<close>
  "upper s = map upper_char s"

definition lower :: "string \<Rightarrow> string" where
  \<comment> \<open>\<open>str.lower()\<close>\<close>
  "lower s = map lower_char s"

definition is_space :: "char \<Rightarrow> bool" where
  \<comment> \<open>\<open>str.isspace()\<close> on ASCII: TAB, LF, VT, FF, CR, FS, GS, RS, US and the blank\<close>
  "is_space c \<longleftrightarrow> c \<in> set [CHR 0x09, CHR 0x0A, CHR 0x0B, CHR 0x0C, CHR 0x0D,
                            CHR 0x1C, CHR 0x1D, CHR 0x1E, CHR 0x1F, CHR 0x20]"

definition lstrip :: "string \<Rightarrow> string" where
  "lstrip s = dropWhile is_space s"

definition rstrip :: "string \<Rightarrow> string" where
  "rstrip s = rev (dropWhile is_space (rev s))"

definition strip :: "string \<Rightarrow> string" where
  \<comment> \<open>\<open>str.strip()\<close>\<close>
  "strip s = rstrip (lstrip s)"

definition rstrip_chars :: "string \<Rightarrow> string \<Rightarrow> string" where
  \<comment> \<open>\<open>s.rstrip(chars)\<close>: every trailing character that occurs in \<open>chars\<close> goes\<close>
  "rstrip_chars chars s = rev (dropWhile (\<lambda>c. c \<in> set chars) (rev s))"

fun is_prefix :: "string \<Rightarrow> string \<Rightarrow> bool" where
  "is_prefix [] ys = True"
| "is_prefix (x # xs) [] = False"
| "is_prefix (x # xs) (y # ys) = (x = y \<and> is_prefix xs ys)"

fun str_in :: "string \<Rightarrow> string \<Rightarrow> bool" where
  \<comment> \<open>\<open>q in name\<close> on two strings: \<open>q\<close> occurs in \<open>name\<close> as a contiguous run\<close>
  "str_in q [] = (q = [])"
| "str_in q (y # ys) = (is_prefix q (y # ys) \<or> str_in q ys)"

definition digit_chars :: string where
  "digit_chars = ''0123456789''"

definition digit_of :: "char \<Rightarrow> nat option" where
  "digit_of c = map_of (zip digit_chars [0 ..< 10]) c"

definition digit_char :: "nat \<Rightarrow> char" where
  "digit_char d = digit_chars ! (d mod 10)"

fun parse_digits :: "nat \<Rightarrow> string \<Rightarrow> nat option" where
  \<comment> \<open>the digits after the first one; a single underscore may stand between two digits\<close>
  "parse_digits acc [] = Some acc"
| "parse_digits acc (c # cs) =
     (if c = CHR ''_'' then
        (case cs of
           [] \<Rightarrow> None
         | d # ds \<Rightarrow> (case digit_of d of
                        None \<Rightarrow> None
                      | Some v \<Rightarrow> parse_digits (10 * acc + v) ds))
      else
        (case digit_of c of
           None \<Rightarrow> None
         | Some v \<Rightarrow> parse_digits (10 * acc + v) cs))"

definition parse_unsigned :: "string \<Rightarrow> nat option" where
  "parse_unsigned s =
     (case s of
        [] \<Rightarrow> None
      | c # cs \<Rightarrow> (case digit_of c of None \<Rightarrow> None | Some v \<Rightarrow> parse_digits v cs))"

definition py_int :: "string \<Rightarrow> int option" where
  \<comment> \<open>\<open>int(s)\<close> in base 10: surrounding whitespace, one optional sign, digits.
      \<open>None\<close> stands for \<open>ValueError\<close>.\<close>
  "py_int s =
     (case strip s of
        [] \<Rightarrow> None
      | c # cs \<Rightarrow>
          if c = CHR ''-'' then map_option (\<lambda>n. - int n) (parse_unsigned cs)
          else if c = CHR ''+'' then map_option int (parse_unsigned cs)
          else map_option int (parse_unsigned (c # cs)))"

function str_nat :: "nat \<Rightarrow> string" where
  "str_nat n = (if n < 10 then [digit_char n] else str_nat (n div 10) @ [digit_char (n mod 10)])"
  by pat_completeness auto
termination
  by (relation "measure id") auto

declare str_nat.simps [simp del]

definition str_int :: "int \<Rightarrow> string" where
  \<comment> \<open>\<open>str(n)\<close> of an integer\<close>
  "str_int n = (if n < 0 then CHR ''-'' # str_nat (nat (- n)) else str_nat (nat n))"

definition py_range :: "int \<Rightarrow> int \<Rightarrow> int \<Rightarrow> int list" where
  \<comment> \<open>\<open>list(range(start, stop, step))\<close> for a positive step\<close>
  "py_range start stop step =
     map (\<lambda>k. start + step * int k) [0 ..< nat ((stop - start + step - 1) div step)]"

section \<open>Constants, JSON values, events and results\<close>

definition DECADES :: "int list" where
  "DECADES = py_range 1900 2030 10"

definition MOODS :: "string list" where
  "MOODS = [''SLOW'', ''FAST'', ''WEIRD'']"

text \<open>
  A value as \<open>json.loads\<close> returns it. \<open>JNull\<close> is Python's \<open>None\<close>. An object
  is the list of the items of the \<open>dict\<close> it was parsed into. Of a float only
  whether it is zero matters to this program.
\<close>

datatype json =
    JNull
  | JBool bool
  | JInt int
  | JFloat (is_zero: bool)
  | JStr string
  | JArr "json list"
  | JObj "(string \<times> json) list"

fun truthy :: "json \<Rightarrow> bool" where
  \<comment> \<open>the truth value Python gives a value in \<open>if x\<close> and \<open>not x\<close>\<close>
  "truthy JNull = False"
| "truthy (JBool b) = b"
| "truthy (JInt n) = (n \<noteq> 0)"
| "truthy (JFloat z) = (\<not> z)"
| "truthy (JStr s) = (s \<noteq> [])"
| "truthy (JArr xs) = (xs \<noteq> [])"
| "truthy (JObj kv) = (kv \<noteq> [])"

definition dict_get :: "('k \<times> 'v) list \<Rightarrow> 'k \<Rightarrow> 'v \<Rightarrow> 'v" where
  \<comment> \<open>\<open>d.get(k, default)\<close>\<close>
  "dict_get d k dflt = (case map_of d k of Some v \<Rightarrow> v | None \<Rightarrow> dflt)"

text \<open>
  What the program prints, one constructor for each \<open>print\<close> call (or block of
  calls) of the source with the values it interpolates; the colour codes are left out.
\<close>

datatype msg =
    InvalidDecade string           \<comment> \<open>Invalid decade: '...'\<close>
  | TryDecade                      \<comment> \<open>Try: 1970, 70s, 70, 2000\<close>
  | DecadeOutOfRange int           \<comment> \<open>Decade n out of range (1900-2020)\<close>
  | FetchCountriesError string     \<comment> \<open>Error fetching countries: ...\<close>
  | MultipleMatches string         \<comment> \<open>Multiple matches for '...':\<close>
  | MatchLine string string        \<comment> \<open>one candidate: code and display name\<close>
  | UnknownCountry string          \<comment> \<open>Unknown country: '...'\<close>
  | TryCountry                     \<comment> \<open>Try a country name (italy, japan) or ISO code (ITA, JPN)\<close>
  | MultipleCountries              \<comment> \<open>Multiple countries specified. Use one at a time.\<close>
  | NoAudioURL                     \<comment> \<open>No audio URL found\<close>
  | NoPlayer                       \<comment> \<open>No audio player found. Install mpv:\<close>
  | InstallHintMac                 \<comment> \<open>brew install mpv (macOS)\<close>
  | InstallHintUbuntu              \<comment> \<open>sudo apt install mpv (Ubuntu)\<close>
  | TrackInfoHead json             \<comment> \<open>the lines of \<open>display_track\<close> before the one with the length\<close>
  | TrackInfo json                 \<comment> \<open>all the lines of \<open>display_track\<close>\<close>
  | Banner                         \<comment> \<open>the two title lines of interactive mode\<close>
  | Filters "string list"          \<comment> \<open>Filters: ... (the parts, before they are joined)\<close>
  | Keys                           \<comment> \<open>[n] next  [q] quit\<close>
  | NoTracksTryFilters             \<comment> \<open>No tracks found for this selection. Try different filters.\<close>
  | NoTracks                       \<comment> \<open>No tracks found for this selection.\<close>
  | Goodbye                        \<comment> \<open>goodbye\<close>
  | Listing "int option"           \<comment> \<open>the lines of \<open>list_countries\<close>\<close>
  | ListingError                   \<comment> \<open>Error: ...\<close>

datatype request =
    GetCountries                                  \<comment> \<open>GET /language/countries/en.json\<close>
  | GetCountryMood int                            \<comment> \<open>GET /country/mood?decade=n\<close>
  | PostPlay "string list" "int list" "string list"
      \<comment> \<open>POST /play, mode explore, with isocodes, decades and moods\<close>

datatype event =
    Print msg
  | Http request               \<comment> \<open>a network call (\<open>urlopen\<close>)\<close>
  | Spawn nat "string list"    \<comment> \<open>\<open>subprocess.Popen(cmd)\<close>, with the number of the child\<close>
  | Terminate nat              \<comment> \<open>\<open>process.terminate()\<close>\<close>

datatype exn =
    SystemExit int
  | ValueError
  | TypeError
  | AttributeError
  | JSONDecodeError
  | HTTPError int
  | URLError
  | KeyboardInterrupt

type_synonym 'a result = "event list \<times> (exn + 'a)"

section \<open>The country directory\<close>

text \<open>
  A \<open>dict\<close> keeps its keys in insertion order and assigning to a key that is present
  replaces the value in place: an association list under \<open>AList.update\<close>.
  The source's variable \<open>iso\<close> is written \<open>isoc\<close> (\<open>iso\<close> is a constant of HOL).
\<close>

type_synonym directory = "(string \<times> string) list \<times> (string \<times> string) list"

definition add_country :: "directory \<Rightarrow> string \<times> string \<Rightarrow> directory" where
  \<comment> \<open>the body of the loop over \<open>data\<close>\<close>
  "add_country d item =
     (case d of (mapping, names) \<Rightarrow>
      case item of (isoc, name) \<Rightarrow>
        (AList.update (lower isoc) isoc (AList.update (lower name) isoc mapping),
         AList.update isoc name names))"

definition build_directory :: "(string \<times> string) list \<Rightarrow> directory" where
  "build_directory data = foldl add_country ([], []) data"

text \<open>
  The remote service and the machine the program runs on. The directory request either
  raises inside the \<open>try\<close> (the text of the exception) or yields the list of
  \<open>[code, name]\<close> pairs.
\<close>

record world =
  countries_response :: "string + (string \<times> string) list"
  listing_ok :: bool           \<comment> \<open>whether the request of \<open>list_countries\<close> succeeds\<close>
  mpv :: "string option"       \<comment> \<open>\<open>shutil.which("mpv")\<close>\<close>
  ffplay :: "string option"    \<comment> \<open>\<open>shutil.which("ffplay")\<close>\<close>

definition get_countries ::
  "world \<Rightarrow> directory option \<Rightarrow> event list \<times> (exn + directory) \<times> directory option" where
  \<comment> \<open>the second argument and the third result are \<open>_countries_cache\<close>\<close>
  "get_countries w cache =
     (case cache of
        Some d \<Rightarrow> ([], Inr d, cache)
      | None \<Rightarrow>
          (case countries_response w of
             Inl e \<Rightarrow> ([Http GetCountries, Print (FetchCountriesError e)], Inl (SystemExit 1), None)
           | Inr data \<Rightarrow>
               let d = build_directory data in ([Http GetCountries], Inr d, Some d)))"

fun dedupe :: "string set \<Rightarrow> (string \<times> string) list \<Rightarrow> (string \<times> string) list" where
  \<comment> \<open>the loop that fills \<open>unique\<close>; the first argument is \<open>seen\<close>\<close>
  "dedupe seen [] = []"
| "dedupe seen ((isoc, name) # ms) =
     (if isoc \<notin> seen then (isoc, name) # dedupe (insert isoc seen) ms else dedupe seen ms)"

definition unique_matches :: "(string \<times> string) list \<Rightarrow> string \<Rightarrow> (string \<times> string) list" where
  \<comment> \<open>the list \<open>unique\<close>: the partial matches over the items of \<open>mapping\<close>, one
      for each code\<close>
  "unique_matches mapping q =
     dedupe {} (map (\<lambda>(name, isoc). (isoc, name))
                  (filter (\<lambda>(name, isoc). str_in q name \<and> length name > 3) mapping))"

definition lookup_country :: "directory \<Rightarrow> string \<Rightarrow> string result" where
  \<comment> \<open>\<open>resolve_country\<close> from the line \<open>q = query.lower().strip()\<close> on\<close>
  "lookup_country d query =
     (case d of (mapping, names) \<Rightarrow>
      let q = strip (lower query) in
      case map_of mapping q of
        Some isoc \<Rightarrow> ([], Inr isoc)
      | None \<Rightarrow>
          let unique = unique_matches mapping q in
          if length unique = 1 then ([], Inr (fst (unique ! 0)))
          else if length unique > 1 then
            (Print (MultipleMatches query) #
               map (\<lambda>(isoc, name). Print (MatchLine isoc (dict_get names isoc ''?'')))
                 (take 10 unique),
             Inl (SystemExit 1))
          else ([Print (UnknownCountry query), Print TryCountry], Inl (SystemExit 1)))"

definition resolve_country ::
  "world \<Rightarrow> directory option \<Rightarrow> string \<Rightarrow> event list \<times> (exn + string) \<times> directory option" where
  "resolve_country w cache query =
     (case get_countries w cache of
        (ev, Inl e, cache') \<Rightarrow> (ev, Inl e, cache')
      | (ev, Inr d, cache') \<Rightarrow>
          (case lookup_country d query of (ev', r) \<Rightarrow> (ev @ ev', r, cache')))"

section \<open>resolve\_decade\<close>

definition resolve_decade :: "string \<Rightarrow> int result" where
  "resolve_decade dec_str =
     (let s = rstrip_chars ''s'' (strip (lower dec_str)) in
      case py_int s of
        None \<Rightarrow> ([Print (InvalidDecade dec_str), Print TryDecade], Inl (SystemExit 1))
      | Some n0 \<Rightarrow>
          let n1 = (if n0 < 100
                    then (if n0 \<ge> 0 \<and> n0 \<le> 20 then 2000 + n0 else 1900 + n0)
                    else n0);
              n = (n1 div 10) * 10
          in if n \<notin> set DECADES
             then ([Print (DecadeOutOfRange n)], Inl (SystemExit 1))
             else ([], Inr n))"


section \<open>get\_track\<close>

text \<open>
  What \<open>urlopen\<close> and \<open>json.loads\<close> make of one request: a response with its
  body, an \<open>HTTPError\<close> with its status code and body, or any other exception of the
  transport. A body is \<open>None\<close> when \<open>json.loads\<close> rejects it.
\<close>

datatype http_outcome =
    HttpOk "json option"
  | HttpFailed int "json option"
  | NoConnection

fun py_in :: "string \<Rightarrow> json \<Rightarrow> exn + bool" where
  \<comment> \<open>\<open>text in v\<close>: a substring of a string, an element of a list, a key of a dict\<close>
  "py_in t (JStr s) = Inr (str_in t s)"
| "py_in t (JArr xs) = Inr (JStr t \<in> set xs)"
| "py_in t (JObj kv) = Inr (t \<in> set (map fst kv))"
| "py_in t JNull = Inl TypeError"
| "py_in t (JBool b) = Inl TypeError"
| "py_in t (JInt n) = Inl TypeError"
| "py_in t (JFloat z) = Inl TypeError"

definition play_body :: "string option \<Rightarrow> int list \<Rightarrow> string list option \<Rightarrow> request" where
  "play_body country decades moods =
     PostPlay (case country of Some c \<Rightarrow> if c \<noteq> [] then [c] else [] | None \<Rightarrow> [])
              decades
              (case moods of Some ms \<Rightarrow> if ms \<noteq> [] then ms else MOODS | None \<Rightarrow> MOODS)"

definition get_track ::
  "string option \<Rightarrow> int list \<Rightarrow> string list option \<Rightarrow> http_outcome \<Rightarrow> json result" where
  "get_track country decades moods r =
     ([Http (play_body country decades moods)],
      case r of
        HttpOk None \<Rightarrow> Inl JSONDecodeError
      | HttpOk (Some j) \<Rightarrow> Inr j
      | HttpFailed code body \<Rightarrow>
          if code = 400 then
            (case body of
               None \<Rightarrow> Inl JSONDecodeError
             | Some (JObj kv) \<Rightarrow>
                 (case py_in ''No track'' (dict_get kv ''error'' (JStr [])) of
                    Inl e \<Rightarrow> Inl e
                  | Inr True \<Rightarrow> Inr JNull
                  | Inr False \<Rightarrow> Inl (HTTPError code))
             | Some _ \<Rightarrow> Inl AttributeError)
          else Inl (HTTPError code)
      | NoConnection \<Rightarrow> Inl URLError)"

section \<open>play\_track and display\_track\<close>

definition py_or :: "string option \<Rightarrow> string option \<Rightarrow> string option" where
  \<comment> \<open>\<open>a or b\<close> on two results of \<open>shutil.which\<close>\<close>
  "py_or a b = (case a of Some p \<Rightarrow> if p \<noteq> [] then Some p else b | None \<Rightarrow> b)"

definition play_track :: "world \<Rightarrow> json \<Rightarrow> string list option result" where
  \<comment> \<open>\<open>Some cmd\<close>: the child \<open>Popen(cmd)\<close> started; \<open>None\<close>: the source's \<open>None\<close>\<close>
  "play_track w track =
     (case track of
        JObj kv \<Rightarrow>
          (case dict_get kv ''links'' (JObj []) of
             JObj links \<Rightarrow>
               (case map_of links ''mpeg'' of
                  None \<Rightarrow> ([Print NoAudioURL], Inr None)
                | Some url \<Rightarrow>
                    if \<not> truthy url then ([Print NoAudioURL], Inr None)
                    else
                      (case py_or (mpv w) (ffplay w) of
                         None \<Rightarrow>
                           ([Print NoPlayer, Print InstallHintMac, Print InstallHintUbuntu],
                            Inr None)
                       | Some player \<Rightarrow>
                           if player = [] then
                             ([Print NoPlayer, Print InstallHintMac, Print InstallHintUbuntu],
                              Inr None)
                           else
                             (case url of
                                JStr u \<Rightarrow>
                                  ([], Inr (Some
                                     (if str_in ''mpv'' player
                                      then [player, ''--no-video'', ''--really-quiet'', u]
                                      else [player, ''-nodisp'', ''-autoexit'', ''-loglevel'',
                                            ''quiet'', u])))
                              | _ \<Rightarrow> ([], Inl TypeError))))
           | _ \<Rightarrow> ([], Inl AttributeError))
      | _ \<Rightarrow> ([], Inl AttributeError))"

fun hashable :: "json \<Rightarrow> bool" where
  "hashable (JArr xs) = False"
| "hashable (JObj kv) = False"
| "hashable j = True"

definition display_track :: "json \<Rightarrow> (string \<times> string) list \<Rightarrow> unit result" where
  \<comment> \<open>what is printed, and the exceptions a value of the wrong type raises\<close>
  "display_track track country_names =
     (case track of
        JObj kv \<Rightarrow>
          (case dict_get kv ''mood'' (JStr ''?'') of
             JStr mood \<Rightarrow>
               if country_names \<noteq> [] \<and> \<not> hashable (dict_get kv ''country'' (JStr ''?''))
               then ([], Inl TypeError)
               else
                 (case dict_get kv ''length'' (JInt 0) of
                    JInt n \<Rightarrow> ([Print (TrackInfo track)], Inr ())
                  | JBool b \<Rightarrow> ([Print (TrackInfo track)], Inr ())
                  | JFloat z \<Rightarrow> ([Print (TrackInfoHead track)], Inl ValueError)
                  | _ \<Rightarrow> ([], Inl TypeError))
           | _ \<Rightarrow> ([], Inl AttributeError))
      | _ \<Rightarrow> ([], Inl AttributeError))"

section \<open>The playback session\<close>

text \<open>
  The session is a machine that takes one step for each answer of its environment: the
  response to a track request, the answer of \<open>process.poll()\<close> (whether the child has
  exited), the outcome of one \<open>select\<close> on the standard input (no line within the
  interval, or the line \<open>readline\<close> returns), and the interrupt signal. The program
  counter names the place where the source waits for that answer. An answer that the
  place does not wait for leaves the state as it is. The interrupt is taken at these
  places, between two statements of \<open>interactive_mode\<close>.
\<close>

datatype proc =
    Alive          \<comment> \<open>started, not seen to have exited, not asked to terminate\<close>
  | AskedToStop    \<comment> \<open>\<open>terminate()\<close> has been called\<close>
  | Finished       \<comment> \<open>\<open>poll()\<close> has returned an exit status\<close>

datatype outcome =
    Returned       \<comment> \<open>\<open>main\<close> returns\<close>
  | Exit int       \<comment> \<open>\<open>sys.exit(n)\<close> reaches the top\<close>
  | Crashed exn    \<comment> \<open>an exception nobody catches\<close>

datatype pc =
    Fetching       \<comment> \<open>\<open>track = get_track(...)\<close> in the loop of \<open>interactive_mode\<close>\<close>
  | Killing json   \<comment> \<open>\<open>process.poll()\<close> under "Kill previous track"\<close>
  | Waiting        \<comment> \<open>\<open>process.poll()\<close> at the top of the inner loop\<close>
  | Selecting      \<comment> \<open>\<open>select.select\<close> and \<open>readline\<close>\<close>
  | Leaving        \<comment> \<open>\<open>process.poll()\<close> after the inner loop\<close>
  | Quitting       \<comment> \<open>\<open>process.poll()\<close> in \<open>cleanup\<close>\<close>
  | OneFetching    \<comment> \<open>\<open>track = get_track(...)\<close> under \<open>args.one\<close>\<close>
  | OneWaiting     \<comment> \<open>\<open>proc.wait()\<close>\<close>
  | Ended outcome

datatype input =
    Response http_outcome
  | Polled bool               \<comment> \<open>\<open>True\<close>: the child has exited\<close>
  | Selected "string option"  \<comment> \<open>\<open>None\<close>: nothing to read within the interval\<close>
  | Interrupt

record session =
  pc :: pc
  process :: "nat option"     \<comment> \<open>the variable \<open>process\<close>: the number of a child\<close>
  procs :: "proc list"        \<comment> \<open>every child started so far, by number\<close>
  trace :: "event list"       \<comment> \<open>what the program has done so far, in order\<close>

record config =
  c_country :: "string option"                    \<comment> \<open>the parameter \<open>country\<close>\<close>
  c_decades :: "int list"                         \<comment> \<open>the parameter \<open>decades\<close>\<close>
  c_moods :: "string list option"                 \<comment> \<open>the parameter \<open>moods\<close>\<close>
  c_names :: "(string \<times> string) list"           \<comment> \<open>\<open>country_names\<close>\<close>
  c_world :: world

definition emit :: "event list \<Rightarrow> session \<Rightarrow> session" where
  "emit ev s = s\<lparr>trace := trace s @ ev\<rparr>"

definition has_exited :: "bool \<Rightarrow> session \<Rightarrow> bool" where
  \<comment> \<open>\<open>process.poll() is not None\<close>, the flag being the answer of the system\<close>
  "has_exited b s = (case process s of None \<Rightarrow> True | Some p \<Rightarrow> procs s ! p = Finished \<or> b)"

definition set_proc :: "proc \<Rightarrow> session \<Rightarrow> session" where
  "set_proc st s = (case process s of None \<Rightarrow> s | Some p \<Rightarrow> s\<lparr>procs := (procs s)[p := st]\<rparr>)"

definition terminate :: "session \<Rightarrow> session" where
  \<comment> \<open>\<open>process.terminate()\<close>\<close>
  "terminate s =
     (case process s of None \<Rightarrow> s | Some p \<Rightarrow> emit [Terminate p] (set_proc AskedToStop s))"

definition stop_if_alive :: "bool \<Rightarrow> session \<Rightarrow> session" where
  \<comment> \<open>\<open>if process and process.poll() is None: process.terminate()\<close>\<close>
  "stop_if_alive b s =
     (if process s = None then s
      else if has_exited b s then set_proc Finished s
      else terminate s)"

definition cleanup :: "bool \<Rightarrow> session \<Rightarrow> session" where
  "cleanup b s = (emit [Print Goodbye] (stop_if_alive b s))\<lparr>pc := Ended (Exit 0)\<rparr>"

definition interrupt :: "session \<Rightarrow> session" where
  \<comment> \<open>the handler \<open>cleanup\<close> is entered; with a child it polls first\<close>
  "interrupt s = (if process s = None then cleanup True s else s\<lparr>pc := Quitting\<rparr>)"

definition launch :: "world \<Rightarrow> pc \<Rightarrow> json \<Rightarrow> session \<Rightarrow> session" where
  \<comment> \<open>\<open>process = play_track(track)\<close> and the test \<open>if not process\<close>; the second
      argument is where the program goes with a child\<close>
  "launch w next track s =
     (case play_track w track of
        (ev, Inl e) \<Rightarrow> (emit ev s)\<lparr>pc := Ended (Crashed e)\<rparr>
      | (ev, Inr None) \<Rightarrow> (emit ev s)\<lparr>pc := Ended Returned, process := None\<rparr>
      | (ev, Inr (Some cmd)) \<Rightarrow>
          (emit (ev @ [Spawn (length (procs s)) cmd]) s)
            \<lparr>pc := next, process := Some (length (procs s)), procs := procs s @ [Alive]\<rparr>)"

definition fetched :: "config \<Rightarrow> bool \<Rightarrow> http_outcome \<Rightarrow> session \<Rightarrow> session" where
  \<comment> \<open>from the answer to the track request up to the next place the program waits;
      the flag is \<open>args.one\<close>\<close>
  "fetched cfg single r s =
     (case get_track (c_country cfg) (c_decades cfg) (c_moods cfg) r of
        (ev, Inl e) \<Rightarrow> (emit ev s)\<lparr>pc := Ended (Crashed e)\<rparr>
      | (ev, Inr track) \<Rightarrow>
          if \<not> truthy track then
            (emit (ev @ [Print (if single then NoTracks else NoTracksTryFilters)]) s)
              \<lparr>pc := Ended Returned\<rparr>
          else
            (case display_track track (c_names cfg) of
               (ev', Inl e) \<Rightarrow> (emit (ev @ ev') s)\<lparr>pc := Ended (Crashed e)\<rparr>
             | (ev', Inr u) \<Rightarrow>
                 if single then launch (c_world cfg) OneWaiting track (emit (ev @ ev') s)
                 else if process s = None
                 then launch (c_world cfg) Waiting track (emit (ev @ ev') s)
                 else (emit (ev @ ev') s)\<lparr>pc := Killing track\<rparr>))"

definition quit_keys :: "string list" where
  "quit_keys = [''q'', ''quit'', ''exit'']"

definition next_keys :: "string list" where
  "next_keys = [''n'', ''next'', []]"

definition selected :: "string option \<Rightarrow> session \<Rightarrow> session" where
  \<comment> \<open>the body of the inner loop after the poll\<close>
  "selected line s =
     (case line of
        None \<Rightarrow> s\<lparr>pc := Waiting\<rparr>
      | Some l \<Rightarrow>
          let key = lower (strip l) in
          if key \<in> set quit_keys then interrupt s
          else if key \<in> set next_keys then s\<lparr>pc := Leaving\<rparr>
          else s\<lparr>pc := Waiting\<rparr>)"

definition step :: "config \<Rightarrow> session \<Rightarrow> input \<Rightarrow> session" where
  "step cfg s inp =
     (case pc s of
        Ended out \<Rightarrow> s
      | Fetching \<Rightarrow>
          (case inp of
             Response r \<Rightarrow> fetched cfg False r s
           | Interrupt \<Rightarrow> interrupt s
           | _ \<Rightarrow> s)
      | Killing track \<Rightarrow>
          (case inp of
             Polled b \<Rightarrow> launch (c_world cfg) Waiting track (stop_if_alive b s)
           | Interrupt \<Rightarrow> interrupt s
           | _ \<Rightarrow> s)
      | Waiting \<Rightarrow>
          (case inp of
             Polled b \<Rightarrow>
               if has_exited b s then (set_proc Finished s)\<lparr>pc := Fetching\<rparr>
               else s\<lparr>pc := Selecting\<rparr>
           | Interrupt \<Rightarrow> interrupt s
           | _ \<Rightarrow> s)
      | Selecting \<Rightarrow>
          (case inp of
             Selected line \<Rightarrow> selected line s
           | Interrupt \<Rightarrow> interrupt s
           | _ \<Rightarrow> s)
      | Leaving \<Rightarrow>
          (case inp of
             Polled b \<Rightarrow> (stop_if_alive b s)\<lparr>pc := Fetching\<rparr>
           | Interrupt \<Rightarrow> interrupt s
           | _ \<Rightarrow> s)
      | Quitting \<Rightarrow>
          (case inp of
             Polled b \<Rightarrow> cleanup b s
           | _ \<Rightarrow> s)
      | OneFetching \<Rightarrow>
          (case inp of
             Response r \<Rightarrow> fetched cfg True r s
           | Interrupt \<Rightarrow> s\<lparr>pc := Ended (Crashed KeyboardInterrupt)\<rparr>
           | _ \<Rightarrow> s)
      | OneWaiting \<Rightarrow>
          (case inp of
             Polled b \<Rightarrow> if b then (set_proc Finished s)\<lparr>pc := Ended Returned\<rparr> else s
           | Interrupt \<Rightarrow> (terminate s)\<lparr>pc := Ended Returned\<rparr>
           | _ \<Rightarrow> s))"

section \<open>main\<close>

record arguments =
  list_arg :: "string option"   \<comment> \<open>\<open>args.list\<close>\<close>
  filters :: "string list"      \<comment> \<open>\<open>args.filters\<close>\<close>
  mood :: "string list option"  \<comment> \<open>\<open>args.mood\<close>\<close>
  one :: bool                   \<comment> \<open>\<open>args.one\<close>\<close>

definition caught :: "exn \<Rightarrow> bool" where
  \<comment> \<open>\<open>except (ValueError, SystemExit)\<close>\<close>
  "caught e = (case e of SystemExit n \<Rightarrow> True | ValueError \<Rightarrow> True | _ \<Rightarrow> False)"

definition try_decade :: "string \<Rightarrow> int result" where
  \<comment> \<open>the \<open>try\<close> block of the loop: \<open>n = int(s)\<close>, then \<open>resolve_decade(f)\<close>\<close>
  "try_decade f =
     (case py_int (rstrip_chars ''s'' (strip (lower f))) of
        None \<Rightarrow> ([], Inl ValueError)
      | Some n \<Rightarrow> resolve_decade f)"

fun read_filters ::
  "world \<Rightarrow> directory option \<Rightarrow> string option \<Rightarrow> int list \<Rightarrow> string list
     \<Rightarrow> event list \<times> (exn + string option \<times> int list) \<times> directory option" where
  \<comment> \<open>the loop over \<open>args.filters\<close>, with the cache, \<open>country\<close> and \<open>decades\<close>\<close>
  "read_filters w cache country decades [] = ([], Inr (country, decades), cache)"
| "read_filters w cache country decades (f # fs) =
     (case try_decade f of
        (ev, Inr d) \<Rightarrow>
          (case read_filters w cache country (decades @ [d]) fs of
             (ev', r) \<Rightarrow> (ev @ ev', r))
      | (ev, Inl e) \<Rightarrow>
          if \<not> caught e then (ev, Inl e, cache)
          else if country \<noteq> None then
            (ev @ [Print MultipleCountries], Inl (SystemExit 1), cache)
          else
            (case resolve_country w cache f of
               (ev', Inl e', cache') \<Rightarrow> (ev @ ev', Inl e', cache')
             | (ev', Inr c, cache') \<Rightarrow>
                 (case read_filters w cache' (Some c) decades fs of
                    (ev'', r) \<Rightarrow> (ev @ ev' @ ev'', r))))"

definition list_countries ::
  "world \<Rightarrow> directory option \<Rightarrow> int option \<Rightarrow> event list \<times> (exn + unit)" where
  "list_countries w cache decade =
     (case get_countries w cache of
        (ev, Inl e, cache') \<Rightarrow> (ev, Inl e)
      | (ev, Inr d, cache') \<Rightarrow>
          (case decade of
             None \<Rightarrow> (ev @ [Print (Listing None)], Inr ())
           | Some n \<Rightarrow>
               if n = 0 then (ev @ [Print (Listing None)], Inr ())
               else (ev @ [Http (GetCountryMood n),
                           Print (if listing_ok w then Listing (Some n) else ListingError)],
                     Inr ())))"

definition py_join :: "string \<Rightarrow> string list \<Rightarrow> string" where
  \<comment> \<open>\<open>sep.join(parts)\<close>\<close>
  "py_join sep parts = (case parts of [] \<Rightarrow> [] | p # ps \<Rightarrow> p @ concat (map (\<lambda>x. sep @ x) ps))"

definition filter_parts ::
  "string option \<Rightarrow> int list \<Rightarrow> string list option \<Rightarrow> (string \<times> string) list \<Rightarrow> string list" where
  \<comment> \<open>the list \<open>filters\<close> of \<open>interactive_mode\<close>\<close>
  "filter_parts country decades moods names =
     (case country of Some c \<Rightarrow> if c \<noteq> [] then [dict_get names c c] else [] | None \<Rightarrow> []) @
     (if decades \<noteq> [] then [py_join '', '' (map (\<lambda>d. str_int d @ ''s'') decades)] else []) @
     (case moods of
        Some ms \<Rightarrow> if ms \<noteq> [] \<and> set ms \<noteq> set MOODS then [py_join '', '' (map lower ms)] else []
      | None \<Rightarrow> [])"

definition ended :: "event list \<Rightarrow> outcome \<Rightarrow> session" where
  "ended ev out = \<lparr>pc = Ended out, process = None, procs = [], trace = ev\<rparr>"

definition outcome_of :: "exn \<Rightarrow> outcome" where
  "outcome_of e = (case e of SystemExit n \<Rightarrow> Exit n | _ \<Rightarrow> Crashed e)"

definition list_mode :: "world \<Rightarrow> string \<Rightarrow> session" where
  \<comment> \<open>the branch of \<open>main\<close> under \<open>args.list is not None\<close>\<close>
  "list_mode w l =
     (case (if l \<noteq> ''all'' then map_prod id (map_sum id Some) (resolve_decade l)
            else ([], Inr None)) of
        (ev, Inl e) \<Rightarrow> ended ev (outcome_of e)
      | (ev, Inr decade) \<Rightarrow>
          (case list_countries w None decade of
             (ev', Inl e) \<Rightarrow> ended (ev @ ev') (outcome_of e)
           | (ev', Inr u) \<Rightarrow> ended (ev @ ev') Returned))"

definition startup :: "world \<Rightarrow> arguments \<Rightarrow> config \<times> session" where
  \<comment> \<open>\<open>main\<close> up to the first track request: the filters, and the head of
      \<open>interactive_mode\<close>\<close>
  "startup w a =
     (let idle = \<lparr>c_country = None, c_decades = [], c_moods = None, c_names = [], c_world = w\<rparr> in
      case list_arg a of
        Some l \<Rightarrow> (idle, list_mode w l)
      | None \<Rightarrow>
          (case read_filters w None None [] (filters a) of
             (ev, Inl e, cache) \<Rightarrow> (idle, ended ev (outcome_of e))
           | (ev, Inr (c, ds), cache) \<Rightarrow>
               let ms = (case mood a of
                           Some m \<Rightarrow> if m \<noteq> [] then Some (map upper m) else None
                         | None \<Rightarrow> None)
               in case get_countries w cache of
                    (ev', Inl e, cache') \<Rightarrow> (idle, ended (ev @ ev') (outcome_of e))
                  | (ev', Inr (mapping, names), cache') \<Rightarrow>
                      let cfg = \<lparr>c_country = c, c_decades = ds, c_moods = ms,
                                 c_names = names, c_world = w\<rparr>
                      in if one a then
                           (cfg, \<lparr>pc = OneFetching, process = None, procs = [],
                                  trace = ev @ ev'\<rparr>)
                         else
                           (cfg, \<lparr>pc = Fetching, process = None, procs = [],
                                  trace = ev @ ev' @ [Print Banner] @
                                    (let parts = filter_parts c ds ms names
                                     in if parts \<noteq> [] then [Print (Filters parts)] else []) @
                                    [Print Keys]\<rparr>)))"

definition main :: "world \<Rightarrow> arguments \<Rightarrow> input list \<Rightarrow> session" where
  \<comment> \<open>the state of the program after the environment has given these answers\<close>
  "main w a inputs = (case startup w a of (cfg, s) \<Rightarrow> foldl (step cfg) s inputs)"

definition exit_code :: "session \<Rightarrow> int option" where
  \<comment> \<open>the exit status of the process once it has ended: 0 when \<open>main\<close> returns, the
      argument of \<open>sys.exit\<close>, 1 for an exception nobody catches\<close>
  "exit_code s =
     (case pc s of
        Ended Returned \<Rightarrow> Some 0
      | Ended (Exit n) \<Rightarrow> Some n
      | Ended (Crashed e) \<Rightarrow> Some 1
      | _ \<Rightarrow> None)"

section \<open>What the statements below are about\<close>

definition no_track_reply :: "http_outcome \<Rightarrow> bool" where
  \<comment> \<open>the request failed with status 400 and the error message, a string, contains
      "No track"\<close>
  "no_track_reply r =
     (case r of
        HttpFailed code (Some (JObj kv)) \<Rightarrow>
          code = 400 \<and> (case map_of kv ''error'' of
                          Some (JStr m) \<Rightarrow> str_in ''No track'' m
                        | _ \<Rightarrow> False)
      | _ \<Rightarrow> False)"

definition succeeded :: "http_outcome \<Rightarrow> bool" where
  \<comment> \<open>a response arrived and its body is JSON\<close>
  "succeeded r = (case r of HttpOk (Some j) \<Rightarrow> True | _ \<Rightarrow> False)"

fun playing :: "pc \<Rightarrow> bool" where
  \<comment> \<open>the places of the program where the variable \<open>process\<close> holds a child\<close>
  "playing Waiting = True"
| "playing Selecting = True"
| "playing Leaving = True"
| "playing Quitting = True"
| "playing OneWaiting = True"
| "playing (Killing track) = False"
| "playing Fetching = False"
| "playing OneFetching = False"
| "playing (Ended out) = False"


definition owner :: "nat option \<Rightarrow> proc list \<Rightarrow> bool \<Rightarrow> bool" where
  \<comment> \<open>only the child in the handle can be alive, and only while the flag holds\<close>
  "owner h ps pl \<longleftrightarrow>
     (\<forall>p. h = Some p \<longrightarrow> p < length ps) \<and>
     (\<forall>i < length ps. ps ! i = Alive \<longrightarrow> h = Some i \<and> pl) \<and>
     (pl \<longrightarrow> h \<noteq> None)"

definition inv :: "session \<Rightarrow> bool" where
  \<comment> \<open>only the child in \<open>process\<close> can be alive, and only while the program is
      at a place where it plays\<close>
  "inv s \<longleftrightarrow> owner (process s) (procs s) (playing (pc s))"

definition running :: "session \<Rightarrow> bool" where
  \<comment> \<open>the program has not ended\<close>
  "running s = (case pc s of Ended out \<Rightarrow> False | _ \<Rightarrow> True)"

fun interactive :: "pc \<Rightarrow> bool" where
  \<comment> \<open>the places of \<open>interactive_mode\<close>, and the end\<close>
  "interactive OneFetching = False"
| "interactive OneWaiting = False"
| "interactive p = True"

definition century :: "int \<Rightarrow> int" where
  \<comment> \<open>the two-digit rule of \<open>resolve_decade\<close>\<close>
  "century n0 = (if n0 < 100 then (if n0 \<ge> 0 \<and> n0 \<le> 20 then 2000 + n0 else 1900 + n0) else n0)"

definition sample_track :: json where
  "sample_track = JObj [(''artist'', JStr ''Mina''), (''title'', JStr ''Tintarella di luna''),
                        (''mood'', JStr ''FAST''), (''length'', JInt 181),
                        (''links'', JObj [(''mpeg'', JStr ''https://asset.example/a.mp3'')])]"

definition sample_world :: world where
  "sample_world = \<lparr>countries_response = Inr [(''ITA'', ''Italy''), (''JPN'', ''Japan''),
                                              (''FIN'', ''Finland''), (''ISL'', ''Iceland'')],
                    listing_ok = True, mpv = Some ''/usr/bin/mpv'', ffplay = None\<rparr>"

definition bare_world :: world where
  \<comment> \<open>the same without any player installed\<close>
  "bare_world = sample_world\<lparr>mpv := None\<rparr>"

definition plain_args :: arguments where
  "plain_args = \<lparr>list_arg = None, filters = [], mood = None, one = False\<rparr>"

fun resolving_msg :: "msg \<Rightarrow> bool" where
  \<comment> \<open>the messages of \<open>resolve_decade\<close>, \<open>get_countries\<close>, \<open>resolve_country\<close>
      and of the loop over the filters\<close>
  "resolving_msg (InvalidDecade t) = True"
| "resolving_msg TryDecade = True"
| "resolving_msg (DecadeOutOfRange n) = True"
| "resolving_msg (FetchCountriesError e) = True"
| "resolving_msg (MultipleMatches q) = True"
| "resolving_msg (MatchLine c n) = True"
| "resolving_msg (UnknownCountry q) = True"
| "resolving_msg TryCountry = True"
| "resolving_msg MultipleCountries = True"
| "resolving_msg m = False"

fun resolving :: "event \<Rightarrow> bool" where
  \<comment> \<open>what the resolution of the filters can do: fetch the country directory, and
      print one of its messages\<close>
  "resolving (Http GetCountries) = True"
| "resolving (Print m) = resolving_msg m"
| "resolving x = False"

fun startup_event :: "event \<Rightarrow> bool" where
  \<comment> \<open>what the program can do before its first track request\<close>
  "startup_event (Print Banner) = True"
| "startup_event (Print (Filters parts)) = True"
| "startup_event (Print Keys) = True"
| "startup_event (Print (Listing d)) = True"
| "startup_event (Print ListingError) = True"
| "startup_event (Http (GetCountryMood n)) = True"
| "startup_event x = resolving x"

definition listed :: "(string \<times> string) list \<Rightarrow> (string \<times> string) list \<Rightarrow> (string \<times> string) list" where
  \<comment> \<open>the candidates the ambiguity message lists: the first ten, each with the display
      name of its code\<close>
  "listed names u = map (\<lambda>(c, name). (c, dict_get names c ''?'')) (take 10 u)"



definition sample_config :: config where
  \<comment> \<open>the configuration \<open>main\<close> reaches from \<open>plain_args\<close> in \<open>sample_world\<close>\<close>
  "sample_config = \<lparr>c_country = None, c_decades = [], c_moods = None,
       c_names = snd (build_directory [(''ITA'', ''Italy''), (''JPN'', ''Japan''),
                                       (''FIN'', ''Finland''), (''ISL'', ''Iceland'')]),
       c_world = sample_world\<rparr>"

definition bare_config :: config where
  "bare_config = sample_config\<lparr>c_world := bare_world\<rparr>"

section \<open>Decimal strings\<close>

text \<open>The characters \<open>str\<close> produces for an integer: a minus sign and digits.\<close>

definition plain_char :: "char \<Rightarrow> bool" where
  "plain_char c \<longleftrightarrow> c \<in> set ''-0123456789''"

definition plain :: "string \<Rightarrow> bool" where
  "plain s \<longleftrightarrow> (\<forall>c \<in> set s. plain_char c)"

section \<open>Reading back what str writes\<close>



lemma upt_10: "[0 ..< 10] = [0, 1, 2, 3, 4, 5, 6, 7, 8, 9 :: nat]"
  by code_simp

lemma digit_of_digit_char: "d < 10 \<Longrightarrow> digit_of (digit_char d) = Some d"
proof -
  assume "d < 10"
  then have "d \<in> {0, 1, 2, 3, 4, 5, 6, 7, 8, 9}" by auto
  then show ?thesis
    by (auto simp: digit_of_def digit_char_def digit_chars_def upt_10)
qed

lemma digit_char_in: "digit_char d \<in> set digit_chars"
proof -
  have "d mod 10 < length digit_chars" by (simp add: digit_chars_def)
  then show ?thesis unfolding digit_char_def by (rule nth_mem)
qed


lemma set_str_nat: "set (str_nat n) \<subseteq> set digit_chars"
proof (induction n rule: str_nat.induct)
  case (1 n)
  show ?case
  proof (cases "n < 10")
    case True
    then show ?thesis by (subst str_nat.simps) (simp add: digit_char_in)
  next
    case False
    with 1 show ?thesis by (subst str_nat.simps) (simp add: digit_char_in)
  qed
qed

lemma str_nat_nonempty: "str_nat n \<noteq> []"
  by (subst str_nat.simps) simp

lemma parse_digits_snoc:
  "parse_digits acc ds = Some m \<Longrightarrow> d < 10 \<Longrightarrow> CHR ''_'' \<notin> set ds
     \<Longrightarrow> parse_digits acc (ds @ [digit_char d]) = Some (10 * m + d)"
proof (induction ds arbitrary: acc)
  case Nil
  have "digit_char d \<noteq> CHR ''_''"
    using digit_char_in [of d] by (auto simp: digit_chars_def)
  with Nil show ?case by (simp add: digit_of_digit_char)
next
  case (Cons c cs)
  then show ?case by (auto split: option.splits)
qed

lemma underscore_not_digit: "CHR ''_'' \<notin> set digit_chars"
  by (simp add: digit_chars_def)

lemma parse_unsigned_str_nat: "parse_unsigned (str_nat n) = Some n"
proof (induction n rule: str_nat.induct)
  case (1 n)
  show ?case
  proof (cases "n < 10")
    case True
    then show ?thesis
      by (subst str_nat.simps) (simp add: parse_unsigned_def digit_of_digit_char)
  next
    case False
    with 1 have ih: "parse_unsigned (str_nat (n div 10)) = Some (n div 10)" by simp
    obtain c cs where cs: "str_nat (n div 10) = c # cs"
      using str_nat_nonempty [of "n div 10"] by (cases "str_nat (n div 10)") auto
    from ih cs obtain v where v: "digit_of c = Some v" "parse_digits v cs = Some (n div 10)"
      by (auto simp: parse_unsigned_def split: option.splits)
    have "CHR ''_'' \<notin> set cs"
      using set_str_nat [of "n div 10"] cs underscore_not_digit by auto
    with v have "parse_digits v (cs @ [digit_char (n mod 10)]) = Some (10 * (n div 10) + n mod 10)"
      by (intro parse_digits_snoc) auto
    then have "parse_unsigned (str_nat (n div 10) @ [digit_char (n mod 10)]) = Some n"
      using cs v by (simp add: parse_unsigned_def)
    with False show ?thesis by (subst str_nat.simps) simp
  qed
qed



lemma dropWhile_none: "\<forall>c \<in> set s. \<not> P c \<Longrightarrow> dropWhile P s = s"
  by (cases s) auto


lemma plain_char_facts:
  assumes "plain_char c"
  shows "lower_char c = c" and "\<not> is_space c" and "c \<notin> set ''s''"
proof -
  have "list_all (\<lambda>c. lower_char c = c \<and> \<not> is_space c \<and> c \<notin> set ''s'') ''-0123456789''"
    by code_simp
  then have "lower_char c = c \<and> \<not> is_space c \<and> c \<notin> set ''s''"
    using assms unfolding list_all_iff plain_char_def by blast
  then show "lower_char c = c" and "\<not> is_space c" and "c \<notin> set ''s''" by blast+
qed

lemma s_facts: "lower_char CHR ''s'' = CHR ''s''" "\<not> is_space CHR ''s''"
  by code_simp+

lemma digit_plain: "c \<in> set digit_chars \<Longrightarrow> plain_char c"
  unfolding digit_chars_def plain_char_def by (rule set_subset_Cons [THEN subsetD])

lemma minus_plain: "plain_char CHR ''-''"
  by code_simp

lemma digit_not_sign: "c \<in> set digit_chars \<Longrightarrow> c \<noteq> CHR ''-'' \<and> c \<noteq> CHR ''+''"
proof -
  have "list_all (\<lambda>c. c \<noteq> CHR ''-'' \<and> c \<noteq> CHR ''+'') digit_chars" by code_simp
  then show "c \<in> set digit_chars \<Longrightarrow> c \<noteq> CHR ''-'' \<and> c \<noteq> CHR ''+''"
    unfolding list_all_iff by blast
qed


lemma plain_lower: "plain s \<Longrightarrow> lower s = s"
  unfolding lower_def plain_def by (intro map_idI) (simp add: plain_char_facts)

lemma plain_strip: "plain s \<Longrightarrow> strip s = s"
  unfolding strip_def lstrip_def rstrip_def plain_def
  by (simp add: dropWhile_none plain_char_facts)

lemma plain_rstrip_s: "plain s \<Longrightarrow> rstrip_chars ''s'' s = s"
  unfolding rstrip_chars_def plain_def
  by (simp add: dropWhile_none plain_char_facts(3) del: set_simps)

lemma plain_str_nat: "plain (str_nat n)"
  unfolding plain_def using set_str_nat digit_plain by blast

lemma plain_str_int: "plain (str_int n)"
  using plain_str_nat [of "nat n"] plain_str_nat [of "nat (- n)"] minus_plain
  unfolding str_int_def plain_def by simp

lemma py_int_str_int: "py_int (str_int n) = Some n"
proof (cases "n < 0")
  case True
  have "strip (str_int n) = CHR ''-'' # str_nat (nat (- n))"
    using plain_strip [OF plain_str_int, of n] True by (simp add: str_int_def)
  then show ?thesis using True by (simp add: py_int_def parse_unsigned_str_nat)
next
  case False
  obtain c cs where cs: "str_nat (nat n) = c # cs"
    using str_nat_nonempty [of "nat n"] by (cases "str_nat (nat n)") auto
  have "c \<in> set digit_chars" using set_str_nat [of "nat n"] cs by auto
  then have c: "c \<noteq> CHR ''-''" "c \<noteq> CHR ''+''" using digit_not_sign by blast+
  have "strip (str_int n) = c # cs"
    using plain_strip [OF plain_str_int, of n] False cs by (simp add: str_int_def)
  moreover have "parse_unsigned (c # cs) = Some (nat n)"
    using parse_unsigned_str_nat [of "nat n"] cs by simp
  ultimately show ?thesis using False c by (simp add: py_int_def)
qed

lemma normalise_str_int: "rstrip_chars ''s'' (strip (lower (str_int n))) = str_int n"
  by (simp add: plain_lower plain_strip plain_rstrip_s plain_str_int)

lemma normalise_str_int_s:
  "rstrip_chars ''s'' (strip (lower (str_int n @ ''s''))) = str_int n"
proof -
  have l: "lower (str_int n @ ''s'') = str_int n @ ''s''"
    using plain_lower [OF plain_str_int, of n] s_facts(1)
    by (simp add: lower_def)
  have ns: "\<forall>c \<in> set (str_int n @ ''s''). \<not> is_space c"
    using plain_str_int [of n] plain_char_facts(2) s_facts(2) unfolding plain_def by auto
  have s: "strip (str_int n @ ''s'') = str_int n @ ''s''"
    unfolding strip_def lstrip_def rstrip_def
    using ns by (simp add: dropWhile_none)
  have "rstrip_chars ''s'' (str_int n @ ''s'') = rstrip_chars ''s'' (str_int n)"
    by (simp add: rstrip_chars_def)
  with l s show ?thesis by (simp add: plain_rstrip_s plain_str_int)
qed


section \<open>The decades resolve\_decade accepts\<close>

lemma in_DECADES: "n \<in> set DECADES \<longleftrightarrow> 1900 \<le> n \<and> n \<le> 2020 \<and> n mod 10 = 0"
proof
  assume "n \<in> set DECADES"
  then obtain k where "k < 13" "n = 1900 + 10 * int k"
    unfolding DECADES_def py_range_def by auto
  then show "1900 \<le> n \<and> n \<le> 2020 \<and> n mod 10 = 0" by simp
next
  assume a: "1900 \<le> n \<and> n \<le> 2020 \<and> n mod 10 = 0"
  define k where "k = nat ((n - 1900) div 10)"
  from a have "k < 13" unfolding k_def by linarith
  moreover from a have "n = 1900 + 10 * int k" unfolding k_def by auto
  ultimately show "n \<in> set DECADES"
    unfolding DECADES_def py_range_def by auto
qed

lemma DECADES_eq:
  "DECADES = [1900, 1910, 1920, 1930, 1940, 1950, 1960, 1970, 1980, 1990, 2000, 2010, 2020]"
  by code_simp

lemma round_down:
  fixes x :: int
  shows "x div 10 * 10 \<le> x" and "x - 10 < x div 10 * 10" and "x div 10 * 10 mod 10 = 0"
proof -
  have "x = x div 10 * 10 + x mod 10" by simp
  moreover have "0 \<le> x mod 10" "x mod 10 < 10" by simp_all
  ultimately show "x div 10 * 10 \<le> x" and "x - 10 < x div 10 * 10" by linarith+
  show "x div 10 * 10 mod 10 = 0" by simp
qed

lemma resolve_decade_parsed:
  assumes "py_int (rstrip_chars ''s'' (strip (lower t))) = Some n0"
  shows "resolve_decade t =
           (if century n0 div 10 * 10 \<in> set DECADES then ([], Inr (century n0 div 10 * 10))
            else ([Print (DecadeOutOfRange (century n0 div 10 * 10))], Inl (SystemExit 1)))"
  unfolding resolve_decade_def century_def Let_def using assms by simp

lemma resolve_decade_unparsed:
  assumes "py_int (rstrip_chars ''s'' (strip (lower t))) = None"
  shows "resolve_decade t = ([Print (InvalidDecade t), Print TryDecade], Inl (SystemExit 1))"
  unfolding resolve_decade_def using assms by simp

lemma resolve_decade_str_int:
  "resolve_decade (str_int n) =
           (if century n div 10 * 10 \<in> set DECADES then ([], Inr (century n div 10 * 10))
            else ([Print (DecadeOutOfRange (century n div 10 * 10))], Inl (SystemExit 1)))"
  by (rule resolve_decade_parsed) (simp only: normalise_str_int py_int_str_int)

lemma resolve_decade_str_int_s:
  "resolve_decade (str_int n @ ''s'') =
           (if century n div 10 * 10 \<in> set DECADES then ([], Inr (century n div 10 * 10))
            else ([Print (DecadeOutOfRange (century n div 10 * 10))], Inl (SystemExit 1)))"
  by (rule resolve_decade_parsed) (simp only: normalise_str_int_s py_int_str_int)

lemma resolve_decade_value: "snd (resolve_decade t) = Inr d \<Longrightarrow> d \<in> set DECADES"
proof (cases "py_int (rstrip_chars ''s'' (strip (lower t)))")
  case None
  assume "snd (resolve_decade t) = Inr d"
  then show ?thesis unfolding resolve_decade_unparsed [OF None] by simp
next
  case (Some n0)
  assume "snd (resolve_decade t) = Inr d"
  then show ?thesis unfolding resolve_decade_parsed [OF Some] by (simp split: if_splits)
qed



text \<open>
  C3. For every integer \<open>n\<close> from 0 to 20, \<open>resolve_decade(str(n))\<close> returns
  \<open>2000 + n\<close> rounded down to a multiple of 10, and for every \<open>n\<close> from 21 to 99 it
  returns \<open>1900 + n\<close> rounded down to a multiple of 10; with an \<open>s\<close> after the
  digits the result is the same, the \<open>s\<close> being stripped before the token is parsed.
  Nothing is printed in either case.
\<close>

theorem resolve_decade_shorthand:
  "(0 \<le> n \<and> n \<le> 20 \<longrightarrow>
      resolve_decade (str_int n) = ([], Inr ((2000 + n) div 10 * 10)) \<and>
      resolve_decade (str_int n @ ''s'') = ([], Inr ((2000 + n) div 10 * 10))) \<and>
   (21 \<le> n \<and> n \<le> 99 \<longrightarrow>
      resolve_decade (str_int n) = ([], Inr ((1900 + n) div 10 * 10)) \<and>
      resolve_decade (str_int n @ ''s'') = ([], Inr ((1900 + n) div 10 * 10)))"
proof (intro conjI impI)
  assume n: "0 \<le> n \<and> n \<le> 20"
  then have c: "century n = 2000 + n" by (simp add: century_def)
  from n have "(2000 + n) div 10 * 10 \<in> set DECADES"
    unfolding in_DECADES using round_down [of "2000 + n"] by linarith
  then show "resolve_decade (str_int n) = ([], Inr ((2000 + n) div 10 * 10))"
    and "resolve_decade (str_int n @ ''s'') = ([], Inr ((2000 + n) div 10 * 10))"
    unfolding resolve_decade_str_int resolve_decade_str_int_s c by simp_all
next
  assume n: "21 \<le> n \<and> n \<le> 99"
  then have c: "century n = 1900 + n" by (simp add: century_def)
  from n have "(1900 + n) div 10 * 10 \<in> set DECADES"
    unfolding in_DECADES using round_down [of "1900 + n"] by linarith
  then show "resolve_decade (str_int n) = ([], Inr ((1900 + n) div 10 * 10))"
    and "resolve_decade (str_int n @ ''s'') = ([], Inr ((1900 + n) div 10 * 10))"
    unfolding resolve_decade_str_int resolve_decade_str_int_s c by simp_all
qed

theorem resolve_decade_shorthand_witness:
  "resolve_decade ''7'' = ([], Inr 2000) \<and> resolve_decade ''7s'' = ([], Inr 2000) \<and>
   resolve_decade ''70'' = ([], Inr 1970) \<and> resolve_decade ''70s'' = ([], Inr 1970)"
proof -
  have s7: "str_int 7 = ''7''" and s70: "str_int 70 = ''70''" by code_simp+
  show ?thesis
    using resolve_decade_shorthand [of 7] resolve_decade_shorthand [of 70]
    unfolding s7 s70 by simp
qed

text \<open>
  C4, as stated, fails: \<open>resolve_decade("2021")\<close> does not fail. 2021 is rounded down
  to 2020, which is one of the decades, and is returned.
\<close>

theorem resolve_decade_2021_accepted: "resolve_decade ''2021'' = ([], Inr 2020)"
  by code_simp

text \<open>
  C4, amended. \<open>resolve_decade("2021")\<close> returns 2020; \<open>resolve_decade("abc")\<close>
  prints the invalid-decade message with its hint and exits with status 1; and every
  value \<open>resolve_decade\<close> returns is one of 1900, 1910, ..., 2020.
\<close>

theorem resolve_decade_rejection:
  "resolve_decade ''2021'' = ([], Inr 2020) \<and>
   resolve_decade ''abc'' =
     ([Print (InvalidDecade ''abc''), Print TryDecade], Inl (SystemExit 1)) \<and>
   (\<forall>s d. snd (resolve_decade s) = Inr d \<longrightarrow>
      d \<in> set [1900, 1910, 1920, 1930, 1940, 1950, 1960, 1970, 1980, 1990, 2000, 2010, 2020])"
proof -
  have 1: "resolve_decade ''2021'' = ([], Inr 2020)" by code_simp
  have 2: "resolve_decade ''abc'' =
             ([Print (InvalidDecade ''abc''), Print TryDecade], Inl (SystemExit 1))"
    by code_simp
  from 1 2 resolve_decade_value show ?thesis unfolding DECADES_eq by blast
qed

theorem resolve_decade_rejection_witness:
  "snd (resolve_decade ''1973'') = Inr 1970 \<and>
   (1970 :: int) \<in> set [1900, 1910, 1920, 1930, 1940, 1950, 1960, 1970, 1980, 1990, 2000, 2010, 2020]"
proof -
  have e: "snd (resolve_decade ''1973'') = Inr 1970" by code_simp
  with resolve_decade_rejection show ?thesis by blast
qed

text \<open>
  C10. For every negative integer \<open>n\<close>, \<open>resolve_decade(str(n))\<close> returns no value:
  \<open>n\<close> is below 100 and outside 0..20, so it becomes \<open>1900 + n\<close>, whose rounding
  down to a multiple of 10 is not one of the decades; the call prints the out-of-range
  message for that value and exits with status 1.
\<close>

theorem resolve_decade_negative:
  "n < 0 \<Longrightarrow>
     resolve_decade (str_int n) =
       ([Print (DecadeOutOfRange ((1900 + n) div 10 * 10))], Inl (SystemExit 1))
     \<and> (1900 + n) div 10 * 10 \<notin> set DECADES"
proof -
  assume n: "n < 0"
  then have c: "century n = 1900 + n" by (simp add: century_def)
  from n have "(1900 + n) div 10 * 10 \<notin> set DECADES"
    unfolding in_DECADES using round_down [of "1900 + n"] by linarith
  then show ?thesis
    unfolding resolve_decade_str_int c by simp
qed

theorem resolve_decade_negative_witness:
  "resolve_decade ''-5'' = ([Print (DecadeOutOfRange 1890)], Inl (SystemExit 1))
   \<and> (1890 :: int) \<notin> set DECADES"
proof -
  have s: "str_int (- 5) = ''-5''" by code_simp
  show ?thesis using resolve_decade_negative [of "- 5"] unfolding s by simp
qed

section \<open>What get\_track returns\<close>


text \<open>
  C6, as stated, fails: \<open>get_track\<close> also returns \<open>None\<close> for a request that
  succeeds with the body \<open>null\<close>, which \<open>json.loads\<close> turns into \<open>None\<close>.
\<close>

theorem get_track_none_on_success:
  "snd (get_track None [] None (HttpOk (Some JNull))) = Inr JNull"
  by (simp add: get_track_def)

lemma get_track_ok: "snd (get_track c ds ms (HttpOk b)) = (case b of None \<Rightarrow> Inl JSONDecodeError | Some j \<Rightarrow> Inr j)"
  by (simp add: get_track_def split: option.split)

lemma get_track_no_connection: "snd (get_track c ds ms NoConnection) = Inl URLError"
  by (simp add: get_track_def)

lemma get_track_other_status: "code \<noteq> 400 \<Longrightarrow> snd (get_track c ds ms (HttpFailed code b)) = Inl (HTTPError code)"
  by (simp add: get_track_def)

lemma get_track_400_bad_body: "snd (get_track c ds ms (HttpFailed 400 None)) = Inl JSONDecodeError"
  by (simp add: get_track_def)

lemma get_track_400_object:
  "snd (get_track c ds ms (HttpFailed 400 (Some (JObj kv)))) =
     (case py_in ''No track'' (dict_get kv ''error'' (JStr [])) of
        Inl e \<Rightarrow> Inl e
      | Inr True \<Rightarrow> Inr JNull
      | Inr False \<Rightarrow> Inl (HTTPError 400))"
  by (simp add: get_track_def)

lemma get_track_400_other:
  "(\<forall>kv. j \<noteq> JObj kv) \<Longrightarrow> snd (get_track c ds ms (HttpFailed 400 (Some j))) = Inl AttributeError"
  by (cases j) (simp_all add: get_track_def)

lemma no_track_reply_iff:
  "no_track_reply r \<longleftrightarrow>
     (\<exists>kv m. r = HttpFailed 400 (Some (JObj kv)) \<and> map_of kv ''error'' = Some (JStr m)
              \<and> str_in ''No track'' m)"
proof (cases r)
  case (HttpFailed code body)
  show ?thesis
  proof (cases body)
    case None
    with HttpFailed show ?thesis by (simp add: no_track_reply_def)
  next
    case (Some j)
    show ?thesis
    proof (cases j)
      case (JObj kv)
      show ?thesis
      proof (cases "map_of kv ''error''")
        case None
        with HttpFailed Some JObj show ?thesis by (simp add: no_track_reply_def)
      next
        case (Some v)
        with HttpFailed \<open>body = Some j\<close> JObj show ?thesis
          by (cases v) (simp_all add: no_track_reply_def)
      qed
    qed (use HttpFailed Some in \<open>simp_all add: no_track_reply_def\<close>)
  qed
qed (simp_all add: no_track_reply_def)

text \<open>
  C6, amended. When the request fails with status 400 and the error message of the body
  contains "No track", \<open>get_track\<close> returns \<open>None\<close>. A request that does not
  succeed yields \<open>None\<close> only when the status is 400 and the body is an object whose
  \<open>error\<close> entry contains "No track"; every other transport, HTTP or parse failure
  reaches the caller as an exception. A request that succeeds returns its parsed body.
\<close>

theorem get_track_none:
  "(no_track_reply r \<longrightarrow> snd (get_track c ds ms r) = Inr JNull) \<and>
   (\<not> succeeded r \<longrightarrow>
      (snd (get_track c ds ms r) = Inr JNull \<and>
         (\<exists>kv. r = HttpFailed 400 (Some (JObj kv)) \<and>
               py_in ''No track'' (dict_get kv ''error'' (JStr [])) = Inr True))
      \<or> (\<exists>e. snd (get_track c ds ms r) = Inl e)) \<and>
   (\<forall>j. r = HttpOk (Some j) \<longrightarrow> snd (get_track c ds ms r) = Inr j)"
proof (intro conjI impI allI)
  assume "no_track_reply r"
  then obtain kv m where r: "r = HttpFailed 400 (Some (JObj kv))"
    and m: "map_of kv ''error'' = Some (JStr m)" "str_in ''No track'' m"
    unfolding no_track_reply_iff by blast
  from m have "py_in ''No track'' (dict_get kv ''error'' (JStr [])) = Inr True"
    by (simp add: dict_get_def)
  then show "snd (get_track c ds ms r) = Inr JNull"
    unfolding r get_track_400_object by simp
next
  assume ns: "\<not> succeeded r"
  show "(snd (get_track c ds ms r) = Inr JNull \<and>
         (\<exists>kv. r = HttpFailed 400 (Some (JObj kv)) \<and>
               py_in ''No track'' (dict_get kv ''error'' (JStr [])) = Inr True))
      \<or> (\<exists>e. snd (get_track c ds ms r) = Inl e)"
  proof (cases r)
    case (HttpOk b)
    with ns have "b = None" by (cases b) (simp_all add: succeeded_def)
    with HttpOk show ?thesis by (simp add: get_track_ok)
  next
    case NoConnection
    then show ?thesis by (simp add: get_track_no_connection)
  next
    case (HttpFailed code body)
    show ?thesis
    proof (cases "code = 400")
      case False
      with HttpFailed show ?thesis by (simp add: get_track_other_status)
    next
      case True
      show ?thesis
      proof (cases body)
        case None
        with HttpFailed True show ?thesis by (simp add: get_track_400_bad_body)
      next
        case (Some j)
        show ?thesis
        proof (cases "\<exists>kv. j = JObj kv")
          case False
          with HttpFailed True Some show ?thesis by (simp add: get_track_400_other)
        next
          case True
          then obtain kv where j: "j = JObj kv" by blast
          have r: "r = HttpFailed 400 (Some (JObj kv))"
            using HttpFailed \<open>code = 400\<close> Some j by simp
          show ?thesis
          proof (cases "py_in ''No track'' (dict_get kv ''error'' (JStr []))")
            case (Inl e)
            then show ?thesis unfolding r get_track_400_object by simp
          next
            case (Inr b)
            then show ?thesis unfolding r get_track_400_object by (cases b) simp_all
          qed
        qed
      qed
    qed
  qed
next
  fix j assume "r = HttpOk (Some j)"
  then show "snd (get_track c ds ms r) = Inr j"
    by (simp add: get_track_ok)
qed

theorem get_track_none_witness:
  "no_track_reply (HttpFailed 400 (Some (JObj [(''error'', JStr ''No track found'')]))) \<and>
   snd (get_track None [] None (HttpFailed 400 (Some (JObj [(''error'', JStr ''No track found'')]))))
     = Inr JNull \<and>
   \<not> succeeded (HttpFailed 500 None) \<and>
   snd (get_track None [] None (HttpFailed 500 None)) = Inl (HTTPError 500)"
proof -
  have a: "no_track_reply (HttpFailed 400 (Some (JObj [(''error'', JStr ''No track found'')])))"
    by code_simp
  have b: "\<not> succeeded (HttpFailed 500 None)" by (simp add: succeeded_def)
  have c: "snd (get_track None [] None (HttpFailed 500 None)) = Inl (HTTPError 500)"
    by (simp add: get_track_def)
  from a b c
    get_track_none [of "HttpFailed 400 (Some (JObj [(''error'', JStr ''No track found'')]))" None "[]" None]
  show ?thesis by blast
qed

section \<open>What happens before the first track request\<close>



lemma resolve_decade_resolving: "x \<in> set (fst (resolve_decade t)) \<Longrightarrow> resolving x"
proof (cases "py_int (rstrip_chars ''s'' (strip (lower t)))")
  case None
  assume "x \<in> set (fst (resolve_decade t))"
  then show ?thesis unfolding resolve_decade_unparsed [OF None] by auto
next
  case (Some n0)
  assume "x \<in> set (fst (resolve_decade t))"
  then show ?thesis unfolding resolve_decade_parsed [OF Some] by (auto split: if_splits)
qed


lemma get_countries_cases:
  obtains (cached) d where "cache = Some d" "get_countries w cache = ([], Inr d, cache)"
  | (failed) e where "cache = None" "countries_response w = Inl e"
      "get_countries w cache =
         ([Http GetCountries, Print (FetchCountriesError e)], Inl (SystemExit 1), None)"
  | (fetched) data where "cache = None" "countries_response w = Inr data"
      "get_countries w cache =
         ([Http GetCountries], Inr (build_directory data), Some (build_directory data))"
proof (cases cache)
  case (Some d)
  with cached show ?thesis by (simp add: get_countries_def)
next
  case None
  with failed fetched show ?thesis
    by (cases "countries_response w") (simp_all add: get_countries_def Let_def)
qed

lemma get_countries_resolving:
  "get_countries w cache = (ev, r, cache') \<Longrightarrow> x \<in> set ev \<Longrightarrow> resolving x"
  by (cases rule: get_countries_cases [of cache w]) auto

lemma lookup_country_exact:
  "map_of mapping (strip (lower q)) = Some c \<Longrightarrow> lookup_country (mapping, names) q = ([], Inr c)"
  by (simp add: lookup_country_def)

lemma lookup_country_partial:
  assumes "map_of mapping (strip (lower q)) = None"
  shows "lookup_country (mapping, names) q =
           (if length (unique_matches mapping (strip (lower q))) = 1
            then ([], Inr (fst (unique_matches mapping (strip (lower q)) ! 0)))
            else if length (unique_matches mapping (strip (lower q))) > 1
            then (Print (MultipleMatches q) #
                    map (\<lambda>(c, n). Print (MatchLine c n))
                      (listed names (unique_matches mapping (strip (lower q)))),
                  Inl (SystemExit 1))
            else ([Print (UnknownCountry q), Print TryCountry], Inl (SystemExit 1)))"
  using assms by (simp add: lookup_country_def Let_def listed_def case_prod_beta comp_def)

lemma lookup_country_cases:
  obtains (found) c where "lookup_country d q = ([], Inr c)"
  | (unknown) "lookup_country d q =
       ([Print (UnknownCountry q), Print TryCountry], Inl (SystemExit 1))"
  | (ambiguous) lines where "lookup_country d q =
       (Print (MultipleMatches q) # map (\<lambda>(c, n). Print (MatchLine c n)) lines,
        Inl (SystemExit 1))"
proof (cases d)
  case (Pair mapping names)
  show ?thesis
  proof (cases "map_of mapping (strip (lower q))")
    case (Some c)
    with Pair found show ?thesis by (simp add: lookup_country_exact)
  next
    case None
    note e = lookup_country_partial [OF None, of names]
    consider "length (unique_matches mapping (strip (lower q))) = 1"
      | "length (unique_matches mapping (strip (lower q))) > 1"
      | "length (unique_matches mapping (strip (lower q))) = 0"
      by linarith
    then show ?thesis
    proof cases
      case 1
      with e Pair found show ?thesis by simp
    next
      case 2
      with e Pair ambiguous show ?thesis by simp
    next
      case 3
      with e Pair unknown show ?thesis by simp
    qed
  qed
qed

lemma lookup_country_resolving: "x \<in> set (fst (lookup_country d q)) \<Longrightarrow> resolving x"
  by (cases rule: lookup_country_cases [of d q]) auto


lemma resolve_country_cases:
  obtains (failed) e where "cache = None" "countries_response w = Inl e"
      "resolve_country w cache q =
         ([Http GetCountries, Print (FetchCountriesError e)], Inl (SystemExit 1), None)"
  | (cached) d where "cache = Some d"
      "resolve_country w cache q = (fst (lookup_country d q), snd (lookup_country d q), cache)"
  | (fetched) data where "cache = None" "countries_response w = Inr data"
      "resolve_country w cache q =
         (Http GetCountries # fst (lookup_country (build_directory data) q),
          snd (lookup_country (build_directory data) q), Some (build_directory data))"
proof (cases rule: get_countries_cases [of cache w])
  case (cached d)
  with that(2) show ?thesis by (simp add: resolve_country_def split: prod.split)
next
  case (failed e)
  with that(1) show ?thesis by (simp add: resolve_country_def)
next
  case (fetched data)
  with that(3) show ?thesis by (simp add: resolve_country_def split: prod.split)
qed

lemma resolve_country_resolving:
  "resolve_country w cache q = (ev, r, cache') \<Longrightarrow> x \<in> set ev \<Longrightarrow> resolving x"
  by (cases rule: resolve_country_cases [of cache w q]) (auto dest: lookup_country_resolving)



lemma try_decade_cases:
  obtains (decade) d where "try_decade f = ([], Inr d)" "resolve_decade f = ([], Inr d)"
  | (no_number) "try_decade f = ([], Inl ValueError)" "isl (snd (resolve_decade f))"
  | (refused) ev where "try_decade f = (ev, Inl (SystemExit 1))" "isl (snd (resolve_decade f))"
      "\<forall>x \<in> set ev. resolving x"
proof (cases "py_int (rstrip_chars ''s'' (strip (lower f)))")
  case None
  with no_number show ?thesis
    by (simp add: try_decade_def resolve_decade_unparsed)
next
  case (Some n0)
  then have t: "try_decade f = resolve_decade f" by (simp add: try_decade_def)
  show ?thesis
  proof (cases "century n0 div 10 * 10 \<in> set DECADES")
    case True
    with t decade show ?thesis by (simp add: resolve_decade_parsed [OF Some])
  next
    case False
    with t refused show ?thesis by (simp add: resolve_decade_parsed [OF Some])
  qed
qed

lemma read_filters_resolving:
  "read_filters w cache c ds fs = (ev, r, cache') \<Longrightarrow> x \<in> set ev \<Longrightarrow> resolving x"
proof (induction fs arbitrary: cache c ds ev r cache')
  case Nil
  then show ?case by simp
next
  case (Cons f fs)
  show ?case
  proof (cases rule: try_decade_cases [of f])
    case (decade d)
    obtain ev' r' c' where rest: "read_filters w cache c (ds @ [d]) fs = (ev', r', c')"
      by (cases "read_filters w cache c (ds @ [d]) fs")
    with Cons.prems decade have "ev = ev'" by simp
    with Cons.IH [OF rest] Cons.prems(2) show ?thesis by simp
  next
    case no_number
    show ?thesis
    proof (cases c)
      case (Some cc)
      with Cons.prems no_number show ?thesis by (auto simp: caught_def)
    next
      case None
      obtain ev' r' c' where rc: "resolve_country w cache f = (ev', r', c')"
        by (cases "resolve_country w cache f")
      show ?thesis
      proof (cases r')
        case (Inl e')
        with Cons.prems no_number None rc have "ev = ev'" by (simp add: caught_def)
        with rc Cons.prems(2) show ?thesis by (simp add: resolve_country_resolving)
      next
        case (Inr cc)
        obtain ev'' r'' c'' where rest: "read_filters w c' (Some cc) ds fs = (ev'', r'', c'')"
          by (cases "read_filters w c' (Some cc) ds fs")
        with Cons.prems no_number None rc Inr have "ev = ev' @ ev''" by (simp add: caught_def)
        with rc Cons.prems(2) Cons.IH [OF rest] show ?thesis
          by (auto simp: resolve_country_resolving)
      qed
    qed
  next
    case (refused ev0)
    show ?thesis
    proof (cases c)
      case (Some cc)
      with Cons.prems refused show ?thesis by (auto simp: caught_def)
    next
      case None
      obtain ev' r' c' where rc: "resolve_country w cache f = (ev', r', c')"
        by (cases "resolve_country w cache f")
      show ?thesis
      proof (cases r')
        case (Inl e')
        with Cons.prems refused None rc have "ev = ev0 @ ev'" by (simp add: caught_def)
        with rc Cons.prems(2) refused(3) show ?thesis by (auto simp: resolve_country_resolving)
      next
        case (Inr cc)
        obtain ev'' r'' c'' where rest: "read_filters w c' (Some cc) ds fs = (ev'', r'', c'')"
          by (cases "read_filters w c' (Some cc) ds fs")
        with Cons.prems refused None rc Inr have "ev = ev0 @ ev' @ ev''" by (simp add: caught_def)
        with rc Cons.prems(2) Cons.IH [OF rest] refused(3) show ?thesis
          by (auto simp: resolve_country_resolving)
      qed
    qed
  qed
qed



section \<open>The steps of the session\<close>



lemma emit_fields [simp]:
  "pc (emit ev s) = pc s" "process (emit ev s) = process s" "procs (emit ev s) = procs s"
  "trace (emit ev s) = trace s @ ev"
  by (simp_all add: emit_def)

lemma set_proc_fields [simp]:
  "pc (set_proc st s) = pc s" "process (set_proc st s) = process s"
  "trace (set_proc st s) = trace s"
  "length (procs (set_proc st s)) = length (procs s)"
  by (simp_all add: set_proc_def split: option.split)

lemma set_proc_procs:
  "process s = Some p \<Longrightarrow> procs (set_proc st s) = (procs s)[p := st]"
  by (simp add: set_proc_def)

lemma set_proc_none: "process s = None \<Longrightarrow> set_proc st s = s"
  by (simp add: set_proc_def)

lemma terminate_fields [simp]:
  "pc (terminate s) = pc s" "process (terminate s) = process s"
  "length (procs (terminate s)) = length (procs s)"
  by (simp_all add: terminate_def split: option.split)

lemma terminate_procs:
  "process s = Some p \<Longrightarrow> procs (terminate s) = (procs s)[p := AskedToStop]"
  by (simp add: terminate_def set_proc_procs)

lemma terminate_none: "process s = None \<Longrightarrow> terminate s = s"
  by (simp add: terminate_def)

lemma terminate_trace:
  "process s = Some p \<Longrightarrow> trace (terminate s) = trace s @ [Terminate p]"
  by (simp add: terminate_def)

lemma stop_if_alive_fields [simp]:
  "pc (stop_if_alive b s) = pc s" "process (stop_if_alive b s) = process s"
  "length (procs (stop_if_alive b s)) = length (procs s)"
  by (simp_all add: stop_if_alive_def)

lemma stop_if_alive_procs:
  "process s = Some p \<Longrightarrow>
     procs (stop_if_alive b s) =
       (procs s)[p := (if procs s ! p = Finished \<or> b then Finished else AskedToStop)]"
  by (simp add: stop_if_alive_def has_exited_def set_proc_procs terminate_procs)

lemma stop_if_alive_trace:
  "trace (stop_if_alive b s) =
     trace s @ (case process s of
                  None \<Rightarrow> []
                | Some p \<Rightarrow> if procs s ! p = Finished \<or> b then [] else [Terminate p])"
  by (simp add: stop_if_alive_def has_exited_def terminate_trace split: option.split)

lemma stop_if_alive_none: "process s = None \<Longrightarrow> stop_if_alive b s = s"
  by (simp add: stop_if_alive_def)

lemma cleanup_fields [simp]:
  "pc (cleanup b s) = Ended (Exit 0)" "process (cleanup b s) = process s"
  "procs (cleanup b s) = procs (stop_if_alive b s)"
  "trace (cleanup b s) = trace (stop_if_alive b s) @ [Print Goodbye]"
  by (simp_all add: cleanup_def)

text \<open>Only the child in the handle can be alive.\<close>

lemma quiet_nth: "Alive \<notin> set ps \<Longrightarrow> i < length ps \<Longrightarrow> ps ! i \<noteq> Alive"
  by (metis nth_mem)

lemma nth_quiet: "(\<And>i. i < length ps \<Longrightarrow> ps ! i \<noteq> Alive) \<Longrightarrow> Alive \<notin> set ps"
  by (metis in_set_conv_nth)

lemma owner_bound: "owner (Some p) ps pl \<Longrightarrow> p < length ps"
  unfolding owner_def by blast

lemma owner_handle: "owner h ps True \<Longrightarrow> h \<noteq> None"
  unfolding owner_def by blast

lemma owner_quiet: "owner h ps False \<Longrightarrow> Alive \<notin> set ps"
  unfolding owner_def by (intro nth_quiet) blast

lemma owner_none_quiet: "owner None ps pl \<Longrightarrow> Alive \<notin> set ps"
  unfolding owner_def by (intro nth_quiet) blast

lemma owner_update:
  assumes "owner (Some p) ps pl" and "st \<noteq> Alive"
  shows "Alive \<notin> set (ps[p := st])"
proof (rule nth_quiet)
  fix i assume i: "i < length (ps[p := st])"
  show "ps[p := st] ! i \<noteq> Alive"
  proof (cases "i = p")
    case True
    with i assms(2) show ?thesis by simp
  next
    case False
    with i assms(1) have "ps ! i \<noteq> Alive" unfolding owner_def by auto
    with False show ?thesis by simp
  qed
qed

lemma quiet_owner:
  "Alive \<notin> set ps \<Longrightarrow> (\<And>p. h = Some p \<Longrightarrow> p < length ps) \<Longrightarrow> (pl \<Longrightarrow> h \<noteq> None)
     \<Longrightarrow> owner h ps pl"
proof -
  assume q: "Alive \<notin> set ps" and b: "\<And>p. h = Some p \<Longrightarrow> p < length ps"
    and h: "pl \<Longrightarrow> h \<noteq> None"
  have "\<forall>i < length ps. ps ! i \<noteq> Alive" using quiet_nth [OF q] by blast
  with b h show ?thesis unfolding owner_def by blast
qed

lemma owner_weaken: "owner h ps pl \<Longrightarrow> Alive \<notin> set ps \<Longrightarrow> owner h ps False"
proof (rule quiet_owner)
  assume o: "owner h ps pl"
  show "p < length ps" if "h = Some p" for p using o that unfolding owner_def by blast
qed simp_all

lemma owner_spawn:
  assumes "Alive \<notin> set ps"
  shows "owner (Some (length ps)) (ps @ [Alive]) True"
proof -
  have "i = length ps" if "i < length (ps @ [Alive])" "(ps @ [Alive]) ! i = Alive" for i
    using that quiet_nth [OF assms, of i] by (cases "i < length ps") (simp_all add: nth_append)
  then show ?thesis unfolding owner_def by auto
qed




lemma inv_quiet: "inv s \<Longrightarrow> \<not> playing (pc s) \<Longrightarrow> Alive \<notin> set (procs s)"
  unfolding inv_def by (simp add: owner_quiet)

lemma inv_no_process_quiet: "inv s \<Longrightarrow> process s = None \<Longrightarrow> Alive \<notin> set (procs s)"
  unfolding inv_def using owner_none_quiet by metis

lemma stop_if_alive_quiet: "inv s \<Longrightarrow> Alive \<notin> set (procs (stop_if_alive b s))"
proof (cases "process s")
  case None
  assume "inv s"
  with None show ?thesis by (simp add: stop_if_alive_none inv_no_process_quiet)
next
  case (Some p)
  assume "inv s"
  with Some show ?thesis
    unfolding stop_if_alive_procs [OF Some] inv_def by (intro owner_update [of p _ "playing (pc s)"]) auto
qed

lemma set_proc_quiet: "inv s \<Longrightarrow> st \<noteq> Alive \<Longrightarrow> Alive \<notin> set (procs (set_proc st s))"
proof (cases "process s")
  case None
  assume "inv s" "st \<noteq> Alive"
  with None show ?thesis by (simp add: set_proc_none inv_no_process_quiet)
next
  case (Some p)
  assume "inv s" "st \<noteq> Alive"
  with Some show ?thesis
    unfolding set_proc_procs [OF Some] inv_def by (intro owner_update [of p _ "playing (pc s)"]) auto
qed

lemma terminate_quiet: "inv s \<Longrightarrow> Alive \<notin> set (procs (terminate s))"
proof (cases "process s")
  case None
  assume "inv s"
  with None show ?thesis by (simp add: terminate_none inv_no_process_quiet)
next
  case (Some p)
  assume "inv s"
  with Some show ?thesis
    unfolding terminate_procs [OF Some] inv_def by (intro owner_update [of p _ "playing (pc s)"]) auto
qed

lemma quiet_inv:
  "Alive \<notin> set (procs s) \<Longrightarrow> (\<And>p. process s = Some p \<Longrightarrow> p < length (procs s)) \<Longrightarrow>
     (playing (pc s) \<Longrightarrow> process s \<noteq> None) \<Longrightarrow> inv s"
  unfolding inv_def by (rule quiet_owner)

lemma inv_bound: "inv s \<Longrightarrow> process s = Some p \<Longrightarrow> p < length (procs s)"
  unfolding inv_def using owner_bound by metis

lemma inv_pc:
  "inv s \<Longrightarrow> playing (pc s) \<Longrightarrow> playing q \<Longrightarrow> inv (s\<lparr>pc := q\<rparr>)"
  unfolding inv_def by simp

lemma inv_emit [simp]: "inv (emit ev s) = inv s"
  unfolding inv_def by simp

lemma quiet_end:
  "inv s \<Longrightarrow> Alive \<notin> set (procs s) \<Longrightarrow> \<not> playing q \<Longrightarrow> inv (s\<lparr>pc := q\<rparr>)"
  unfolding inv_def by (simp add: owner_weaken)

lemma launch_cases:
  obtains (crash) ev e where "play_track w track = (ev, Inl e)"
      "launch w next track s = (emit ev s)\<lparr>pc := Ended (Crashed e)\<rparr>"
  | (none) ev where "play_track w track = (ev, Inr None)"
      "launch w next track s = (emit ev s)\<lparr>pc := Ended Returned, process := None\<rparr>"
  | (child) ev cmd where "play_track w track = (ev, Inr (Some cmd))"
      "launch w next track s =
         (emit (ev @ [Spawn (length (procs s)) cmd]) s)
           \<lparr>pc := next, process := Some (length (procs s)), procs := procs s @ [Alive]\<rparr>"
proof (cases "play_track w track")
  case (Pair ev r)
  show ?thesis
  proof (cases r)
    case (Inl e)
    with Pair crash show ?thesis by (simp add: launch_def)
  next
    case (Inr h)
    with Pair none child show ?thesis by (cases h) (simp_all add: launch_def)
  qed
qed

lemma launch_inv:
  assumes "inv s" "Alive \<notin> set (procs s)" "playing next"
  shows "inv (launch w next track s)"
proof (cases rule: launch_cases [of w track "next" s])
  case (crash ev e)
  with assms show ?thesis by (simp add: quiet_end)
next
  case (none ev)
  from assms(2) show ?thesis unfolding none(2) by (intro quiet_inv) simp_all
next
  case (child ev cmd)
  from assms(2,3) show ?thesis unfolding child(2) inv_def by (simp add: owner_spawn)
qed

lemma fetched_cases:
  obtains (ended) ev out where "fetched cfg single r s = (emit ev s)\<lparr>pc := Ended out\<rparr>"
  | (launched) ev "next" track where "next = (if single then OneWaiting else Waiting)"
      "single \<or> process s = None"
      "fetched cfg single r s = launch (c_world cfg) next track (emit ev s)"
  | (kill) ev track where "\<not> single" "process s \<noteq> None"
      "fetched cfg single r s = (emit ev s)\<lparr>pc := Killing track\<rparr>"
proof (cases "get_track (c_country cfg) (c_decades cfg) (c_moods cfg) r")
  case (Pair ev res)
  show ?thesis
  proof (cases res)
    case (Inl e)
    with Pair ended show ?thesis by (simp add: fetched_def)
  next
    case (Inr track)
    show ?thesis
    proof (cases "truthy track")
      case False
      with Pair Inr ended show ?thesis by (simp add: fetched_def)
    next
      case True
      show ?thesis
      proof (cases "display_track track (c_names cfg)")
        case (Pair ev' res')
        show ?thesis
        proof (cases res')
          case (Inl e)
          with \<open>get_track _ _ _ r = (ev, res)\<close> Inr True Pair ended show ?thesis
            by (simp add: fetched_def)
        next
          case (Inr u)
          have f: "fetched cfg single r s =
                (if single then launch (c_world cfg) OneWaiting track (emit (ev @ ev') s)
                 else if process s = None
                 then launch (c_world cfg) Waiting track (emit (ev @ ev') s)
                 else (emit (ev @ ev') s)\<lparr>pc := Killing track\<rparr>)"
            using \<open>get_track _ _ _ r = (ev, res)\<close> \<open>res = Inr track\<close> True Pair Inr
            by (simp add: fetched_def)
          show ?thesis
          proof (cases single)
            case True
            with f launched [of OneWaiting] show ?thesis by simp
          next
            case False
            with f launched [of Waiting] kill show ?thesis by (cases "process s = None") simp_all
          qed
        qed
      qed
    qed
  qed
qed

lemma fetched_inv:
  assumes "inv s" "\<not> playing (pc s)"
  shows "inv (fetched cfg single r s)"
proof (cases rule: fetched_cases [of cfg single r s])
  case (ended ev out)
  with assms show ?thesis by (simp add: quiet_end inv_quiet)
next
  case (launched ev "next" track)
  then have "playing next" by simp
  with launched assms show ?thesis by (simp add: launch_inv inv_quiet)
next
  case (kill ev track)
  with assms show ?thesis by (simp add: quiet_end inv_quiet)
qed

lemma cleanup_inv: "inv s \<Longrightarrow> inv (cleanup b s)"
proof (rule quiet_inv)
  assume i: "inv s"
  then show "Alive \<notin> set (procs (cleanup b s))" by (simp add: stop_if_alive_quiet)
  show "process (cleanup b s) \<noteq> None" if "playing (pc (cleanup b s))"
    using that by simp
  show "p < length (procs (cleanup b s))" if "process (cleanup b s) = Some p" for p
    using that i inv_bound [of s p] by simp
qed

lemma interrupt_inv: "inv s \<Longrightarrow> inv (interrupt s)"
proof (cases "process s")
  case None
  assume i: "inv s"
  with None show ?thesis by (simp add: interrupt_def cleanup_inv)
next
  case (Some p)
  assume "inv s"
  with Some show ?thesis unfolding interrupt_def inv_def
    by (simp add: owner_def)
qed



lemma stop_if_alive_inv: "inv s \<Longrightarrow> inv (stop_if_alive b s)"
proof (rule quiet_inv)
  assume i: "inv s"
  then show "Alive \<notin> set (procs (stop_if_alive b s))" by (rule stop_if_alive_quiet)
  show "p < length (procs (stop_if_alive b s))" if "process (stop_if_alive b s) = Some p" for p
    using that i inv_bound [of s p] by simp
  show "process (stop_if_alive b s) \<noteq> None" if "playing (pc (stop_if_alive b s))"
    using that i unfolding inv_def by (simp add: owner_handle)
qed

lemma set_proc_inv: "inv s \<Longrightarrow> st \<noteq> Alive \<Longrightarrow> inv (set_proc st s)"
proof (rule quiet_inv)
  assume i: "inv s" and st: "st \<noteq> Alive"
  then show "Alive \<notin> set (procs (set_proc st s))" by (rule set_proc_quiet)
  show "p < length (procs (set_proc st s))" if "process (set_proc st s) = Some p" for p
    using that i inv_bound [of s p] by simp
  show "process (set_proc st s) \<noteq> None" if "playing (pc (set_proc st s))"
    using that i unfolding inv_def by (simp add: owner_handle)
qed

lemma terminate_inv: "inv s \<Longrightarrow> inv (terminate s)"
proof (rule quiet_inv)
  assume i: "inv s"
  then show "Alive \<notin> set (procs (terminate s))" by (rule terminate_quiet)
  show "p < length (procs (terminate s))" if "process (terminate s) = Some p" for p
    using that i inv_bound [of s p] by simp
  show "process (terminate s) \<noteq> None" if "playing (pc (terminate s))"
    using that i unfolding inv_def by (simp add: owner_handle)
qed

lemma selected_inv: "inv s \<Longrightarrow> playing (pc s) \<Longrightarrow> inv (selected line s)"
  unfolding selected_def Let_def
  by (cases line) (simp_all add: inv_pc interrupt_inv)

lemma step_inv:
  assumes "inv s"
  shows "inv (step cfg s x)"
proof (cases "pc s")
  case Fetching
  with assms show ?thesis
    by (cases x) (simp_all add: step_def fetched_inv interrupt_inv)
next
  case (Killing track)
  with assms show ?thesis
    by (cases x)
       (simp_all add: step_def interrupt_inv launch_inv stop_if_alive_inv stop_if_alive_quiet)
next
  case Waiting
  with assms show ?thesis
    by (cases x)
       (simp_all add: step_def interrupt_inv inv_pc quiet_end set_proc_inv set_proc_quiet)
next
  case Selecting
  with assms show ?thesis
    by (cases x) (simp_all add: step_def interrupt_inv selected_inv)
next
  case Leaving
  with assms show ?thesis
    by (cases x)
       (simp_all add: step_def interrupt_inv quiet_end stop_if_alive_inv stop_if_alive_quiet)
next
  case Quitting
  with assms show ?thesis
    by (cases x) (simp_all add: step_def cleanup_inv)
next
  case OneFetching
  with assms show ?thesis
    by (cases x) (simp_all add: step_def fetched_inv quiet_end inv_quiet)
next
  case OneWaiting
  with assms show ?thesis
    by (cases x)
       (simp_all add: step_def quiet_end set_proc_inv set_proc_quiet terminate_inv terminate_quiet)
next
  case (Ended out)
  with assms show ?thesis by (simp add: step_def)
qed

lemma main_Nil: "main w a [] = snd (startup w a)"
  by (simp add: main_def split: prod.split)

lemma main_snoc: "main w a (inputs @ [x]) = step (fst (startup w a)) (main w a inputs) x"
  by (simp add: main_def split: prod.split)

lemma ended_fields [simp]:
  "pc (ended ev out) = Ended out" "process (ended ev out) = None" "procs (ended ev out) = []"
  "trace (ended ev out) = ev"
  by (simp_all add: ended_def)

lemma list_mode_ended: "\<exists>ev out. list_mode w l = ended ev out"
proof (cases "if l \<noteq> ''all'' then map_prod id (map_sum id Some) (resolve_decade l)
              else ([], Inr None)")
  case (Pair ev r)
  show ?thesis
  proof (cases r)
    case (Inl e)
    with Pair show ?thesis unfolding list_mode_def by auto
  next
    case (Inr decade)
    show ?thesis
    proof (cases "list_countries w None decade")
      case (Pair ev' r')
      with \<open>_ = (ev, r)\<close> Inr show ?thesis unfolding list_mode_def by (cases r') auto
    qed
  qed
qed

lemma startup_cases:
  obtains (over) cfg ev out where "startup w a = (cfg, ended ev out)"
  | (session) cfg ev where "list_arg a = None"
      "startup w a = (cfg, \<lparr>pc = (if one a then OneFetching else Fetching), process = None,
                             procs = [], trace = ev\<rparr>)"
      "c_world cfg = w"
proof (cases "list_arg a")
  case (Some l)
  with list_mode_ended [of w l] over show ?thesis
    by (auto simp: startup_def Let_def)
next
  case None
  show ?thesis
  proof (cases "read_filters w None None [] (filters a)")
    case (fields ev r cache)
    show ?thesis
    proof (cases r)
      case (Inl e)
      with None fields over show ?thesis by (simp add: startup_def)
    next
      case (Inr cd)
      obtain c ds where cd: "cd = (c, ds)" by (cases cd)
      show ?thesis
      proof (cases "get_countries w cache")
        case (fields ev' r' cache')
        show ?thesis
        proof (cases r')
          case (Inl e)
          with None \<open>read_filters _ _ _ _ _ = _\<close> \<open>r = Inr cd\<close> cd fields over show ?thesis
            by (simp add: startup_def)
        next
          case (Inr d)
          obtain mapping names where d: "d = (mapping, names)" by (cases d)
          from None \<open>read_filters _ _ _ _ _ = _\<close> \<open>r = Inr cd\<close> cd fields Inr d session
          show ?thesis
            by (cases "one a") (simp_all add: startup_def Let_def)
        qed
      qed
    qed
  qed
qed

lemma startup_inv: "inv (snd (startup w a))"
  by (cases rule: startup_cases [of w a]) (simp_all add: inv_def owner_def)

lemma main_inv: "inv (main w a inputs)"
proof (induction inputs rule: rev_induct)
  case Nil
  show ?case unfolding main_Nil by (rule startup_inv)
next
  case (snoc x xs)
  then show ?case unfolding main_snoc by (rule step_inv)
qed



lemma main_snoc2:
  "main w a (inputs @ [x, y]) = step (fst (startup w a)) (step (fst (startup w a)) (main w a inputs) x) y"
proof -
  have "inputs @ [x, y] = (inputs @ [x]) @ [y]" by simp
  then show ?thesis by (simp only: main_snoc)
qed












lemma cleanup_pc_update: "cleanup b (s\<lparr>pc := q\<rparr>) = cleanup b s"
  by (cases "process s")
     (simp_all add: cleanup_def stop_if_alive_def has_exited_def set_proc_def terminate_def
        emit_def)

lemma stop_if_alive_pc_update: "(stop_if_alive b (s\<lparr>pc := q\<rparr>)) = (stop_if_alive b s)\<lparr>pc := q\<rparr>"
  by (cases "process s")
     (simp_all add: stop_if_alive_def has_exited_def set_proc_def terminate_def emit_def)



text \<open>The interrupt.\<close>

lemma interrupt_then_poll:
  assumes "running s" and "interactive (pc s)"
  shows "step cfg (step cfg s Interrupt) (Polled b) = cleanup b s"
proof (cases "pc s = Quitting")
  case True
  then show ?thesis by (simp add: step_def)
next
  case False
  with assms have i: "step cfg s Interrupt = interrupt s"
    by (cases "pc s") (simp_all add: step_def running_def)
  show ?thesis
  proof (cases "process s")
    case None
    then show ?thesis unfolding i
      by (simp add: interrupt_def step_def cleanup_def stop_if_alive_none)
  next
    case (Some p)
    then show ?thesis unfolding i
      by (simp add: interrupt_def step_def cleanup_pc_update)
  qed
qed

lemma launch_pc: "pc (launch w next track s) = next \<or> (\<exists>out. pc (launch w next track s) = Ended out)"
  by (cases rule: launch_cases [of w track "next" s]) simp_all

lemma fetched_interactive: "interactive (pc (fetched cfg False r s))"
proof (cases rule: fetched_cases [of cfg False r s])
  case (launched ev "next" track)
  then show ?thesis
    using launch_pc [of "c_world cfg" Waiting track "emit ev s"] by auto
qed simp_all

lemma interrupt_interactive: "interactive (pc (interrupt s))"
  by (simp add: interrupt_def)

lemma step_interactive:
  assumes "interactive (pc s)"
  shows "interactive (pc (step cfg s x))"
proof (cases "pc s")
  case (Killing track)
  show ?thesis
  proof (cases x)
    case (Polled b)
    with Killing launch_pc [of "c_world cfg" Waiting track "stop_if_alive b s"]
    show ?thesis by (auto simp: step_def)
  qed (use Killing in \<open>simp_all add: step_def interrupt_interactive\<close>)
next
  case Selecting
  show ?thesis
  proof (cases x)
    case (Selected line)
    with Selecting show ?thesis
      by (cases line) (simp_all add: step_def selected_def Let_def interrupt_interactive)
  qed (use Selecting in \<open>simp_all add: step_def interrupt_interactive\<close>)
qed (use assms in \<open>cases x; simp add: step_def interrupt_interactive fetched_interactive\<close>)+

lemma main_interactive: "\<not> one a \<Longrightarrow> interactive (pc (main w a inputs))"
proof (induction inputs rule: rev_induct)
  case Nil
  then show ?case unfolding main_Nil
    by (cases rule: startup_cases [of w a]) simp_all
next
  case (snoc x xs)
  then show ?case unfolding main_snoc by (simp add: step_interactive)
qed

text \<open>
  C9. In interactive mode, at any place of a session that has not ended, the interrupt
  (followed by the answer of the poll in \<open>cleanup\<close>) ends the program with
  \<open>sys.exit(0)\<close>: the child in \<open>process\<close> is sent \<open>terminate\<close> unless it has
  exited, the farewell is printed last, and no child is left alive.
\<close>

theorem interrupt_ends_session:
  "list_arg a = None \<and> \<not> one a \<and> running (main w a inputs) \<longrightarrow>
     pc (main w a (inputs @ [Interrupt, Polled b])) = Ended (Exit 0) \<and>
     exit_code (main w a (inputs @ [Interrupt, Polled b])) = Some 0 \<and>
     trace (main w a (inputs @ [Interrupt, Polled b])) =
       trace (main w a inputs) @
       (case process (main w a inputs) of
          None \<Rightarrow> []
        | Some p \<Rightarrow> if procs (main w a inputs) ! p = Finished \<or> b then [] else [Terminate p]) @
       [Print Goodbye] \<and>
     Alive \<notin> set (procs (main w a (inputs @ [Interrupt, Polled b])))"
proof
  assume h: "list_arg a = None \<and> \<not> one a \<and> running (main w a inputs)"
  then have "interactive (pc (main w a inputs))" by (simp add: main_interactive)
  with h have e: "main w a (inputs @ [Interrupt, Polled b]) = cleanup b (main w a inputs)"
    unfolding main_snoc2 by (simp add: interrupt_then_poll)
  have "Alive \<notin> set (procs (stop_if_alive b (main w a inputs)))"
    using main_inv by (rule stop_if_alive_quiet)
  then show "pc (main w a (inputs @ [Interrupt, Polled b])) = Ended (Exit 0) \<and>
     exit_code (main w a (inputs @ [Interrupt, Polled b])) = Some 0 \<and>
     trace (main w a (inputs @ [Interrupt, Polled b])) =
       trace (main w a inputs) @
       (case process (main w a inputs) of
          None \<Rightarrow> []
        | Some p \<Rightarrow> if procs (main w a inputs) ! p = Finished \<or> b then [] else [Terminate p]) @
       [Print Goodbye] \<and>
     Alive \<notin> set (procs (main w a (inputs @ [Interrupt, Polled b])))"
    unfolding e by (simp add: exit_code_def stop_if_alive_trace)
qed

section \<open>A sample session\<close>

lemma startup_sample:
  "startup sample_world plain_args =
     (sample_config, \<lparr>pc = Fetching, process = None, procs = [],
                      trace = [Http GetCountries, Print Banner, Print Keys]\<rparr>)"
  by (simp add: startup_def plain_args_def get_countries_def sample_world_def Let_def
        filter_parts_def sample_config_def split: prod.splits)

lemma display_sample: "display_track sample_track names = ([Print (TrackInfo sample_track)], Inr ())"
  by (simp add: display_track_def sample_track_def dict_get_def)

lemma play_sample:
  "play_track sample_world sample_track =
     ([], Inr (Some [''/usr/bin/mpv'', ''--no-video'', ''--really-quiet'',
                     ''https://asset.example/a.mp3'']))"
  by (simp add: play_track_def sample_track_def dict_get_def sample_world_def py_or_def)

lemma truthy_sample: "truthy sample_track"
  by (simp add: sample_track_def)

lemma main_sample:
  "main sample_world plain_args inputs =
     foldl (step sample_config)
       \<lparr>pc = Fetching, process = None, procs = [],
        trace = [Http GetCountries, Print Banner, Print Keys]\<rparr> inputs"
  by (simp add: main_def startup_sample)

lemma sample_keys:
  "lower (strip ''n'') = ''n''" "lower (strip ''x'') = ''x''" "lower (strip ''Quit '') = ''quit''"
  "lower (strip ''next'') = ''next''" "lower (strip ''skip'') = ''skip''"
  by code_simp+

lemmas sample_run =
  main_sample step_def fetched_def get_track_def play_body_def truthy_sample display_sample
  launch_def play_sample emit_def sample_config_def selected_def interrupt_def cleanup_def
  stop_if_alive_def has_exited_def set_proc_def terminate_def sample_keys quit_keys_def
  next_keys_def Let_def




theorem interrupt_ends_session_witness:
  "list_arg plain_args = None \<and> \<not> one plain_args \<and>
   running (main sample_world plain_args [Response (HttpOk (Some sample_track)), Polled False]) \<and>
   exit_code (main sample_world plain_args
      ([Response (HttpOk (Some sample_track)), Polled False] @ [Interrupt, Polled False])) = Some 0 \<and>
   trace (main sample_world plain_args
      ([Response (HttpOk (Some sample_track)), Polled False] @ [Interrupt, Polled False])) =
   trace (main sample_world plain_args [Response (HttpOk (Some sample_track)), Polled False]) @
     [Terminate 0, Print Goodbye]"
proof -
  have a: "list_arg plain_args = None \<and> \<not> one plain_args"
    by (simp add: plain_args_def)
  have "running (main sample_world plain_args [Response (HttpOk (Some sample_track)), Polled False])"
    by (simp add: sample_run running_def)
  with a have h: "list_arg plain_args = None \<and> \<not> one plain_args \<and>
     running (main sample_world plain_args [Response (HttpOk (Some sample_track)), Polled False])"
    by blast
  have p: "process (main sample_world plain_args
              [Response (HttpOk (Some sample_track)), Polled False]) = Some 0"
    and q: "procs (main sample_world plain_args
              [Response (HttpOk (Some sample_track)), Polled False]) = [Alive]"
    by (simp_all add: sample_run)
  from h interrupt_ends_session [of plain_args sample_world
      "[Response (HttpOk (Some sample_track)), Polled False]" False]
  show ?thesis by (simp add: p q)
qed

section \<open>Ending before the first track, and without a player\<close>

lemma step_ended: "pc s = Ended out \<Longrightarrow> step cfg s x = s"
  by (simp add: step_def)

lemma foldl_step_ended: "pc s = Ended out \<Longrightarrow> foldl (step cfg) s inputs = s"
  by (induction inputs) (simp_all add: step_ended)











section \<open>Without a player\<close>

lemma play_track_bare:
  assumes "mpv w = None" "ffplay w = None"
  shows "play_track w track = ([Print NoAudioURL], Inr None) \<or>
         play_track w track =
           ([Print NoPlayer, Print InstallHintMac, Print InstallHintUbuntu], Inr None) \<or>
         (\<exists>e. play_track w track = ([], Inl e))"
  using assms unfolding play_track_def py_or_def
  by (simp split: json.split option.split)

lemma play_track_url:
  assumes "mpv w = None" "ffplay w = None"
    and "map_of kv ''links'' = Some (JObj links)" "map_of links ''mpeg'' = Some url" "truthy url"
  shows "play_track w (JObj kv) =
           ([Print NoPlayer, Print InstallHintMac, Print InstallHintUbuntu], Inr None)"
  using assms unfolding play_track_def py_or_def dict_get_def by simp

lemma play_track_remedy:
  "play_track w track = (ev, r) \<Longrightarrow> Print NoPlayer \<in> set ev \<Longrightarrow> r = Inr None"
  unfolding play_track_def
  by (simp split: json.splits option.splits if_splits)

lemma display_track_events: "Print NoPlayer \<notin> set (fst (display_track t names))"
  unfolding display_track_def by (simp split: json.split)

lemma launch_trace:
  "\<exists>ev. trace (launch w next track s) = trace s @ ev \<and>
        (Print NoPlayer \<in> set ev \<longrightarrow> pc (launch w next track s) = Ended Returned)"
proof (cases rule: launch_cases [of w track "next" s])
  case (crash ev e)
  with play_track_remedy [of w track ev "Inl e"] show ?thesis by auto
next
  case (none ev)
  then show ?thesis by auto
next
  case (child ev cmd)
  with play_track_remedy [of w track ev "Inr (Some cmd)"] show ?thesis by auto
qed

lemma fetched_trace:
  "\<exists>ev. trace (fetched cfg single r s) = trace s @ ev \<and>
        (Print NoPlayer \<in> set ev \<longrightarrow> pc (fetched cfg single r s) = Ended Returned)"
proof -
  obtain ev res where g: "get_track (c_country cfg) (c_decades cfg) (c_moods cfg) r = (ev, res)"
    by (cases "get_track (c_country cfg) (c_decades cfg) (c_moods cfg) r")
  then have ev: "Print NoPlayer \<notin> set ev" by (auto simp: get_track_def)
  show ?thesis
  proof (cases res)
    case (Inl e)
    with g ev show ?thesis by (simp add: fetched_def)
  next
    case (Inr track)
    show ?thesis
    proof (cases "truthy track")
      case False
      with g ev Inr show ?thesis by (simp add: fetched_def)
    next
      case True
      obtain ev' res' where d: "display_track track (c_names cfg) = (ev', res')"
        by (cases "display_track track (c_names cfg)")
      then have ev': "Print NoPlayer \<notin> set ev'"
        using display_track_events [of track "c_names cfg"] by simp
      show ?thesis
      proof (cases res')
        case (Inl e)
        with g ev Inr True d ev' show ?thesis by (simp add: fetched_def)
      next
        case (Inr u)
        have l: "\<exists>ev2. trace (launch (c_world cfg) next track (emit (ev @ ev') s)) = trace s @ ev2 \<and>
                 (Print NoPlayer \<in> set ev2 \<longrightarrow>
                    pc (launch (c_world cfg) next track (emit (ev @ ev') s)) = Ended Returned)"
          for "next"
          using launch_trace [of "c_world cfg" "next" track "emit (ev @ ev') s"] ev ev' by auto
        from g \<open>res = Inr track\<close> True d Inr ev ev' l [of OneWaiting] l [of Waiting]
        show ?thesis by (simp add: fetched_def)
      qed
    qed
  qed
qed

lemma cleanup_trace:
  "\<exists>ev. trace (cleanup b s) = trace s @ ev \<and> Print NoPlayer \<notin> set ev"
  by (simp add: stop_if_alive_trace split: option.split)

lemma interrupt_trace:
  "\<exists>ev. trace (interrupt s) = trace s @ ev \<and> Print NoPlayer \<notin> set ev"
  using cleanup_trace [of True s] by (simp add: interrupt_def)

lemma selected_trace:
  "\<exists>ev. trace (selected line s) = trace s @ ev \<and> Print NoPlayer \<notin> set ev"
  using interrupt_trace [of s] by (cases line) (simp_all add: selected_def Let_def)

lemma stop_if_alive_trace':
  "\<exists>ev. trace (stop_if_alive b s) = trace s @ ev \<and> Print NoPlayer \<notin> set ev"
  by (simp add: stop_if_alive_trace split: option.split)

lemma terminate_trace':
  "\<exists>ev. trace (terminate s) = trace s @ ev \<and> Print NoPlayer \<notin> set ev"
  by (cases "process s") (simp_all add: terminate_none terminate_trace)

lemma step_trace:
  "\<exists>ev. trace (step cfg s x) = trace s @ ev \<and>
        (Print NoPlayer \<in> set ev \<longrightarrow> pc (step cfg s x) = Ended Returned)"
proof (cases "pc s")
  case Fetching
  with fetched_trace [of cfg False _ s] interrupt_trace [of s] show ?thesis
    by (cases x) (auto simp: step_def)
next
  case (Killing track)
  show ?thesis
  proof (cases x)
    case (Polled b)
    from stop_if_alive_trace' [of b s] obtain ev1 where
      1: "trace (stop_if_alive b s) = trace s @ ev1" "Print NoPlayer \<notin> set ev1" by blast
    from launch_trace [of "c_world cfg" Waiting track "stop_if_alive b s"] obtain ev2 where
      2: "trace (launch (c_world cfg) Waiting track (stop_if_alive b s))
            = trace (stop_if_alive b s) @ ev2"
         "Print NoPlayer \<in> set ev2 \<longrightarrow>
            pc (launch (c_world cfg) Waiting track (stop_if_alive b s)) = Ended Returned"
      by blast
    from 1 2 Killing Polled show ?thesis by (auto simp: step_def)
  qed (use Killing interrupt_trace [of s] in \<open>auto simp: step_def\<close>)
next
  case Waiting
  with interrupt_trace [of s] show ?thesis by (cases x) (auto simp: step_def)
next
  case Selecting
  with interrupt_trace [of s] selected_trace [of _ s] show ?thesis
    by (cases x) (auto simp: step_def)
next
  case Leaving
  with interrupt_trace [of s] stop_if_alive_trace' [of _ s] show ?thesis
    by (cases x) (auto simp: step_def)
next
  case Quitting
  with cleanup_trace [of _ s] show ?thesis by (cases x) (auto simp: step_def)
next
  case OneFetching
  with fetched_trace [of cfg True _ s] show ?thesis by (cases x) (auto simp: step_def)
next
  case OneWaiting
  with terminate_trace' [of s] show ?thesis by (cases x) (auto simp: step_def)
next
  case (Ended out)
  then show ?thesis by (simp add: step_def)
qed


lemma resolving_startup_event: "resolving x \<Longrightarrow> startup_event x"
  by (induction x rule: startup_event.induct) simp_all

lemma list_countries_events:
  "x \<in> set (fst (list_countries w cache decade)) \<Longrightarrow> startup_event x"
proof (cases rule: get_countries_cases [of cache w])
  case (cached d)
  assume "x \<in> set (fst (list_countries w cache decade))"
  with cached show ?thesis
    by (cases decade) (auto simp: list_countries_def split: if_splits)
next
  case (failed e)
  assume "x \<in> set (fst (list_countries w cache decade))"
  with failed show ?thesis by (auto simp: list_countries_def)
next
  case (fetched data)
  assume "x \<in> set (fst (list_countries w cache decade))"
  with fetched show ?thesis
    by (cases decade) (auto simp: list_countries_def split: if_splits)
qed

lemma list_mode_events: "x \<in> set (trace (list_mode w l)) \<Longrightarrow> startup_event x"
proof (cases "l = ''all''")
  case True
  assume x: "x \<in> set (trace (list_mode w l))"
  obtain ev' r' where lc: "list_countries w None None = (ev', r')"
    by (cases "list_countries w None None")
  with True x have "x \<in> set ev'" unfolding list_mode_def by (cases r') simp_all
  with lc list_countries_events [of x w None None] show ?thesis by simp
next
  case False
  assume x: "x \<in> set (trace (list_mode w l))"
  obtain ev r where rd: "resolve_decade l = (ev, r)" by (cases "resolve_decade l")
  then have ev: "\<forall>y \<in> set ev. startup_event y"
    using resolve_decade_resolving [of _ l] resolving_startup_event by auto
  show ?thesis
  proof (cases r)
    case (Inl e)
    with False rd x ev show ?thesis unfolding list_mode_def by simp
  next
    case (Inr d)
    obtain ev' r' where lc: "list_countries w None (Some d) = (ev', r')"
      by (cases "list_countries w None (Some d)")
    with False rd Inr x have "x \<in> set ev \<or> x \<in> set ev'"
      unfolding list_mode_def by (cases r') auto
    with ev lc list_countries_events [of x w None "Some d"] show ?thesis by auto
  qed
qed

lemma startup_events: "x \<in> set (trace (snd (startup w a))) \<Longrightarrow> startup_event x"
proof (cases "list_arg a")
  case (Some l)
  assume "x \<in> set (trace (snd (startup w a)))"
  with Some list_mode_events [of x w l] show ?thesis by (simp add: startup_def)
next
  case None
  assume x: "x \<in> set (trace (snd (startup w a)))"
  obtain ev r cache where rf: "read_filters w None None [] (filters a) = (ev, r, cache)"
    by (cases "read_filters w None None [] (filters a)")
  then have ev: "\<forall>y \<in> set ev. startup_event y"
    using read_filters_resolving resolving_startup_event by blast
  show ?thesis
  proof (cases r)
    case (Inl e)
    with None rf x ev show ?thesis by (simp add: startup_def)
  next
    case (Inr cd)
    obtain c ds where cd: "cd = (c, ds)" by (cases cd)
    obtain ev' r' cache' where gc: "get_countries w cache = (ev', r', cache')"
      by (cases "get_countries w cache")
    then have ev': "\<forall>y \<in> set ev'. startup_event y"
      using get_countries_resolving resolving_startup_event by blast
    show ?thesis
    proof (cases r')
      case (Inl e)
      with None rf \<open>r = Inr cd\<close> cd gc x ev ev' show ?thesis by (auto simp: startup_def)
    next
      case (Inr d)
      obtain mapping names where d: "d = (mapping, names)" by (cases d)
      from None rf \<open>r = Inr cd\<close> cd gc Inr d x ev ev' show ?thesis
        by (cases "one a") (auto simp: startup_def Let_def)
    qed
  qed
qed

lemma remedy_ends:
  "Print NoPlayer \<in> set (trace (main w a inputs)) \<Longrightarrow> pc (main w a inputs) = Ended Returned"
proof (induction inputs rule: rev_induct)
  case Nil
  then have "startup_event (Print NoPlayer)" unfolding main_Nil by (rule startup_events)
  then show ?case by simp
next
  case (snoc x xs)
  define s where "s = main w a xs"
  define cfg where "cfg = fst (startup w a)"
  from step_trace [of cfg s x] obtain ev where
    ev: "trace (step cfg s x) = trace s @ ev"
        "Print NoPlayer \<in> set ev \<longrightarrow> pc (step cfg s x) = Ended Returned"
    by blast
  have m: "main w a (xs @ [x]) = step cfg s x" unfolding s_def cfg_def by (rule main_snoc)
  show ?case
  proof (cases "Print NoPlayer \<in> set (trace s)")
    case True
    then have "pc s = Ended Returned" unfolding s_def by (rule snoc.IH)
    then show ?thesis unfolding m by (simp add: step_ended)
  next
    case False
    with snoc.prems ev show ?thesis unfolding m by auto
  qed
qed

text \<open>In a world without a player no child is ever started.\<close>

lemma launch_bare:
  assumes "mpv w = None" "ffplay w = None" "procs s = []" "process s = None"
  shows "procs (launch w next track s) = [] \<and> process (launch w next track s) = None"
  using play_track_bare [OF assms(1,2), of track] assms(3,4)
  by (auto simp: launch_def)

lemma fetched_bare:
  assumes "mpv (c_world cfg) = None" "ffplay (c_world cfg) = None" "procs s = []" "process s = None"
  shows "procs (fetched cfg single r s) = [] \<and> process (fetched cfg single r s) = None"
proof (cases rule: fetched_cases [of cfg single r s])
  case (ended ev out)
  with assms show ?thesis by simp
next
  case (launched ev "next" track)
  with launch_bare [OF assms(1,2), of "emit ev s" "next" track] assms(3,4) show ?thesis by simp
next
  case (kill ev track)
  with assms show ?thesis by simp
qed

lemma step_bare:
  assumes "mpv (c_world cfg) = None" "ffplay (c_world cfg) = None" "procs s = []" "process s = None"
  shows "procs (step cfg s x) = [] \<and> process (step cfg s x) = None"
proof (cases "pc s")
  case Fetching
  with fetched_bare [OF assms, of False] assms(3,4) show ?thesis
    by (cases x) (simp_all add: step_def interrupt_def stop_if_alive_none)
next
  case (Killing track)
  with launch_bare [OF assms(1,2), of s Waiting track] assms(3,4) show ?thesis
    by (cases x) (simp_all add: step_def interrupt_def stop_if_alive_none)
next
  case Selecting
  with assms(3,4) show ?thesis
    by (cases x)
       (simp_all add: step_def selected_def Let_def interrupt_def stop_if_alive_none
          split: option.split)
next
  case OneFetching
  with fetched_bare [OF assms, of True] assms(3,4) show ?thesis
    by (cases x) (simp_all add: step_def)
qed (use assms(3,4) in \<open>cases x; simp add: step_def interrupt_def stop_if_alive_none
        set_proc_none terminate_none\<close>)+

lemma startup_world:
  "(\<exists>out. pc (snd (startup w a)) = Ended out) \<or> c_world (fst (startup w a)) = w"
  by (cases rule: startup_cases [of w a]) auto

lemma startup_bare: "procs (snd (startup w a)) = [] \<and> process (snd (startup w a)) = None"
  by (cases rule: startup_cases [of w a]) auto

lemma main_bare:
  assumes "mpv w = None" "ffplay w = None"
  shows "procs (main w a inputs) = [] \<and> process (main w a inputs) = None"
proof (induction inputs rule: rev_induct)
  case Nil
  show ?case unfolding main_Nil by (rule startup_bare)
next
  case (snoc x xs)
  show ?case
  proof (cases "\<exists>out. pc (main w a xs) = Ended out")
    case True
    then obtain out where "pc (main w a xs) = Ended out" ..
    with snoc show ?thesis unfolding main_snoc by (simp add: step_ended)
  next
    case False
    have "c_world (fst (startup w a)) = w"
    proof (rule ccontr)
      assume "c_world (fst (startup w a)) \<noteq> w"
      with startup_world [of w a] obtain out where o: "pc (snd (startup w a)) = Ended out"
        by blast
      obtain cfg0 s0 where st: "startup w a = (cfg0, s0)" by (cases "startup w a")
      with o have "pc s0 = Ended out" by simp
      then have "foldl (step cfg0) s0 xs = s0" by (rule foldl_step_ended)
      with st have "main w a xs = s0" by (simp add: main_def)
      with \<open>pc s0 = Ended out\<close> False show False by simp
    qed
    with assms snoc show ?thesis unfolding main_snoc by (intro step_bare) simp_all
  qed
qed

text \<open>
  C7, amended. When neither player is installed, \<open>play_track\<close> never returns a process
  handle, and for a track with an audio URL it prints the remediation message and returns
  \<open>None\<close>; no child is ever started. Whenever the remediation message has been printed,
  the session has ended by leaving its loop and \<open>main\<close> has returned: the exit status
  of the process is 0.
\<close>

theorem no_player_ends_session:
  "(mpv w = None \<and> ffplay w = None \<longrightarrow>
      (\<forall>track cmd. snd (play_track w track) \<noteq> Inr (Some cmd)) \<and>
      (\<forall>kv links url.
          map_of kv ''links'' = Some (JObj links) \<and> map_of links ''mpeg'' = Some url \<and>
          truthy url \<longrightarrow>
          play_track w (JObj kv) =
            ([Print NoPlayer, Print InstallHintMac, Print InstallHintUbuntu], Inr None)) \<and>
      procs (main w a inputs) = []) \<and>
   (Print NoPlayer \<in> set (trace (main w a inputs)) \<longrightarrow>
      pc (main w a inputs) = Ended Returned \<and> exit_code (main w a inputs) = Some 0)"
proof (intro conjI impI allI)
  fix track cmd
  assume "mpv w = None \<and> ffplay w = None"
  with play_track_bare [of w track] show "snd (play_track w track) \<noteq> Inr (Some cmd)"
    by auto
next
  fix kv links url
  assume "mpv w = None \<and> ffplay w = None"
    and "map_of kv ''links'' = Some (JObj links) \<and> map_of links ''mpeg'' = Some url \<and> truthy url"
  then show "play_track w (JObj kv) =
            ([Print NoPlayer, Print InstallHintMac, Print InstallHintUbuntu], Inr None)"
    by (simp add: play_track_url)
next
  assume "mpv w = None \<and> ffplay w = None"
  then show "procs (main w a inputs) = []" by (simp add: main_bare)
next
  assume "Print NoPlayer \<in> set (trace (main w a inputs))"
  then have "pc (main w a inputs) = Ended Returned" by (rule remedy_ends)
  then show "pc (main w a inputs) = Ended Returned" "exit_code (main w a inputs) = Some 0"
    by (simp_all add: exit_code_def)
qed

lemma startup_bare_sample:
  "startup bare_world plain_args =
     (bare_config, \<lparr>pc = Fetching, process = None, procs = [],
                    trace = [Http GetCountries, Print Banner, Print Keys]\<rparr>)"
  by (simp add: startup_def plain_args_def get_countries_def sample_world_def bare_world_def
        Let_def filter_parts_def sample_config_def bare_config_def split: prod.splits)

lemma play_bare_sample:
  "play_track bare_world sample_track =
     ([Print NoPlayer, Print InstallHintMac, Print InstallHintUbuntu], Inr None)"
  by (simp add: play_track_def sample_track_def dict_get_def sample_world_def bare_world_def
        py_or_def)

lemma bare_run:
  "main bare_world plain_args [Response (HttpOk (Some sample_track))] =
     \<lparr>pc = Ended Returned, process = None, procs = [],
      trace = [Http GetCountries, Print Banner, Print Keys,
               Http (PostPlay [] [] MOODS), Print (TrackInfo sample_track),
               Print NoPlayer, Print InstallHintMac, Print InstallHintUbuntu]\<rparr>"
  by (simp add: main_def startup_bare_sample step_def fetched_def get_track_def play_body_def
        truthy_sample display_sample launch_def play_bare_sample emit_def sample_config_def
        bare_config_def)

text \<open>
  C7, as stated, fails: without a player the program prints the remediation message, the
  session ends, and the exit status is 0, not 1.
\<close>

theorem no_player_exit_status:
  "trace (main bare_world plain_args [Response (HttpOk (Some sample_track))]) =
     [Http GetCountries, Print Banner, Print Keys,
      Http (PostPlay [] [] MOODS), Print (TrackInfo sample_track),
      Print NoPlayer, Print InstallHintMac, Print InstallHintUbuntu] \<and>
   exit_code (main bare_world plain_args [Response (HttpOk (Some sample_track))]) = Some 0"
  by (simp add: bare_run exit_code_def)

theorem no_player_ends_session_witness:
  "mpv bare_world = None \<and> ffplay bare_world = None \<and>
   Print NoPlayer \<in> set (trace (main bare_world plain_args [Response (HttpOk (Some sample_track))])) \<and>
   procs (main bare_world plain_args [Response (HttpOk (Some sample_track))]) = [] \<and>
   pc (main bare_world plain_args [Response (HttpOk (Some sample_track))]) = Ended Returned \<and>
   exit_code (main bare_world plain_args [Response (HttpOk (Some sample_track))]) = Some 0"
proof -
  have w: "mpv bare_world = None \<and> ffplay bare_world = None"
    by (simp add: bare_world_def sample_world_def)
  have n: "Print NoPlayer \<in> set (trace (main bare_world plain_args
              [Response (HttpOk (Some sample_track))]))"
    by (simp add: bare_run)
  from w n no_player_ends_session [of bare_world plain_args
      "[Response (HttpOk (Some sample_track))]"]
  show ?thesis by blast
qed

end
